theory Spec2Isabelle
  imports Complex_Main "HOL-Library.Word" "HOL-Library.Log_Nat"
begin

unbundle bit_operations_syntax

chapter \<open>The sketches as functions\<close>

section \<open>Machine types of the sketches\<close>

text \<open>
  The sketches run on 32-bit ARM boards (SAMD21, nRF52840): \<open>int\<close> and
  \<open>unsigned long\<close> are 32 bits wide, \<open>uint16_t\<close>, \<open>uint8_t\<close> and \<open>int8_t\<close>
  are words of their width. A signed word is read with \<open>sint\<close>, an unsigned one with
  \<open>uint\<close> or \<open>unat\<close>, which is what the integer promotions of C do before a
  comparison or an arithmetic operator.
\<close>

type_synonym uint8_t = "8 word"
type_synonym int8_t = "8 word"
type_synonym uint16_t = "16 word"
type_synonym ulong = "32 word"

section \<open>The board and the clock\<close>

text \<open>
  The sketches poll the board inside one loop. The board is what they can read: the two
  buttons and the capacitive pads, each as a function of the time in milliseconds since
  boot. Time is explicit state: \<open>delay(n)\<close> moves it forward by \<open>n\<close>, every other call
  returns at the time it was made, and \<open>millis()\<close> is the time as an
  \<open>unsigned long\<close>, so it wraps after \<open>2^32\<close> ms as on the board.
\<close>

datatype pin = A1 | A2 | A5 | A6

record board =
  leftButton :: "nat \<Rightarrow> bool"
  rightButton :: "nat \<Rightarrow> bool"
  readCap :: "pin \<Rightarrow> nat \<Rightarrow> uint16_t"

definition millis :: "nat \<Rightarrow> ulong" where
  "millis now = word_of_nat now"

lemma unat_ucast_16_32: "unat (ucast (w :: uint16_t) :: ulong) = unat w"
proof -
  have "unat w < 2 ^ 16" using unsigned_less [of w, where 'a = nat] by simp
  then have "unat w < 2 ^ 32" by simp
  then show ?thesis by (simp add: unsigned_ucast_eq take_bit_nat_eq_self)
qed

text \<open>
  \<open>millis() - start\<close> after a \<open>delay(d)\<close> is \<open>d\<close> more than before it, as long as
  the difference fits the word; the termination proofs of the timed loops rest on this.
\<close>

lemma elapsed_advance:
  fixes start :: ulong
  assumes "unat (millis now - start) + d < 2 ^ 32"
  shows "unat (millis (now + d) - start) = unat (millis now - start) + d"
proof -
  have d: "d < 2 ^ 32" using assms by simp
  have ud: "unat (word_of_nat d :: ulong) = d"
    using d by (simp add: unat_of_nat)
  have eq: "millis (now + d) - start = (millis now - start) + word_of_nat d"
    by (simp add: millis_def)
  have "unat (millis now - start + word_of_nat d)
          = unat (millis now - start) + unat (word_of_nat d :: ulong)"
    using assms unat_add_lem [of "millis now - start" "word_of_nat d"] by (simp add: ud)
  then show ?thesis
    unfolding eq ud .
qed

section \<open>The A+B long press (all three sketches)\<close>

definition AB_RESET_MS :: uint16_t where
  "AB_RESET_MS = 1500"

definition bothButtons :: "board \<Rightarrow> nat \<Rightarrow> bool" where
  "bothButtons b now \<longleftrightarrow> leftButton b now \<and> rightButton b now"

text \<open>
  The \<open>while\<close> loop of \<open>abResetHeld\<close>, from the time \<open>now\<close> of its next test of the
  buttons. It returns what \<open>abResetHeld\<close> returns and the time of the return; the
  confirming blink takes \<open>2 * (70 + 70)\<close> ms.
  \<^verbatim>\<open>
  while (CircuitPlayground.leftButton() && CircuitPlayground.rightButton()) {
    if (millis() - start >= ms) { /* blink */ return true; }
    delay(10);
  }
  return false;
  \<close>
\<close>

function abHoldLoop :: "board \<Rightarrow> uint16_t \<Rightarrow> ulong \<Rightarrow> nat \<Rightarrow> bool \<times> nat" where
  "abHoldLoop b ms start now =
     (if bothButtons b now
      then if millis now - start \<ge> ucast ms then (True, now + 280)
           else abHoldLoop b ms start (now + 10)
      else (False, now))"
  by pat_completeness auto
termination
proof (relation "measure (\<lambda>(b, ms, start, now). unat ms + 10 - unat (millis now - start))")
  show "wf (measure (\<lambda>(b, ms, start, now). unat ms + 10 - unat (millis now - start)))"
    by simp
next
  fix b :: board and ms :: uint16_t and start :: ulong and now :: nat
  assume "bothButtons b now" and n: "\<not> ucast ms \<le> millis now - start"
  have "unat (ucast ms :: ulong) = unat ms" by (rule unat_ucast_16_32)
  with n have lt: "unat (millis now - start) < unat ms"
    by (simp add: word_le_nat_alt)
  moreover have "unat ms < 2 ^ 16"
    using unsigned_less [of ms, where 'a = nat] by simp
  ultimately have "unat (millis now - start) + 10 < 2 ^ 32" by simp
  then have "unat (millis (now + 10) - start) = unat (millis now - start) + 10"
    by (rule elapsed_advance)
  with lt show "((b, ms, start, now + 10), (b, ms, start, now))
        \<in> measure (\<lambda>(b, ms, start, now). unat ms + 10 - unat (millis now - start))"
    by simp
qed

declare abHoldLoop.simps [simp del]

text \<open>
  \<open>abResetHeld(ms)\<close>, called at time \<open>now\<close>: false at once unless both buttons are
  down, else the loop with \<open>start = millis()\<close>.
\<close>

definition abResetHeld :: "board \<Rightarrow> uint16_t \<Rightarrow> nat \<Rightarrow> bool \<times> nat" where
  "abResetHeld b ms now =
     (if \<not> (leftButton b now \<and> rightButton b now) then (False, now)
      else abHoldLoop b ms (millis now) now)"

text \<open>
  Both buttons are down from \<open>t\<close> for \<open>d\<close> ms and up after that: down at every
  millisecond \<open>t, ..., t + d\<close>, not both down at any later one.
\<close>

definition heldFor :: "board \<Rightarrow> nat \<Rightarrow> nat \<Rightarrow> bool" where
  "heldFor b t d \<longleftrightarrow> (\<forall>u\<ge>t. bothButtons b u \<longleftrightarrow> u \<le> t + d)"

definition sameFrom :: "nat \<Rightarrow> board \<Rightarrow> board \<Rightarrow> bool" where
  "sameFrom t b b' \<longleftrightarrow>
     (\<forall>u\<ge>t. leftButton b u = leftButton b' u \<and> rightButton b u = rightButton b' u)"

text \<open>
  Four boards for the scenarios; the right button is down all the time. On
  \<open>holdBoard d\<close> the left button is down from boot up to and including time \<open>d\<close>; on
  \<open>repressBoard\<close> it is down up to time 1000, up from 1001 to 1099, and down again from
  1100 up to and including 2599. On \<open>glitchBoard\<close> it is down all the time except at
  the one millisecond 1005; on \<open>bounceBoard\<close> it is down up to time 1000, up from
  1001 to 1009, and down again from 1010 on.
\<close>

definition holdBoard :: "nat \<Rightarrow> board" where
  "holdBoard d = \<lparr>leftButton = \<lambda>u. u \<le> d, rightButton = \<lambda>u. True, readCap = \<lambda>p u. 0\<rparr>"

definition repressBoard :: board where
  "repressBoard = \<lparr>leftButton = \<lambda>u. u \<le> 1000 \<or> 1100 \<le> u \<and> u \<le> 2599,
                    rightButton = \<lambda>u. True, readCap = \<lambda>p u. 0\<rparr>"

definition glitchBoard :: board where
  "glitchBoard = \<lparr>leftButton = \<lambda>u. u \<noteq> 1005, rightButton = \<lambda>u. True, readCap = \<lambda>p u. 0\<rparr>"

definition bounceBoard :: board where
  "bounceBoard = \<lparr>leftButton = \<lambda>u. u \<le> 1000 \<or> 1010 \<le> u,
                   rightButton = \<lambda>u. True, readCap = \<lambda>p u. 0\<rparr>"

section \<open>Numbers of type float\<close>

text \<open>
  A \<open>float\<close> is modelled by the real number it stands for, and \<open>+\<close>, \<open>-\<close>, \<open>*\<close>,
  \<open>/\<close>, \<open>fabs\<close>, \<open>sqrtf\<close> and \<open>powf\<close> by the operations on the reals: the rounding of
  single precision is left out, and so are infinities and NaN, which the sketches cannot
  reach from finite sensor readings. \<open>(float)M_PI\<close> is \<open>pi\<close>. The one place where the
  rounding is modelled is the reaction window of Whack-a-Mole below, whose product is cut
  to an integer after every step.

  \<open>(int)x\<close> on a float cuts towards zero; \<open>constrain\<close> is the Arduino macro
  \<open>((amt)<(low)?(low):((amt)>(high)?(high):(amt)))\<close>.
\<close>

definition int_of_float :: "real \<Rightarrow> int" where
  "int_of_float x = (if 0 \<le> x then \<lfloor>x\<rfloor> else \<lceil>x\<rceil>)"

definition constrain :: "int \<Rightarrow> int \<Rightarrow> int \<Rightarrow> int" where
  "constrain amt low high = (if amt < low then low else if amt > high then high else amt)"

section \<open>Shake magnitude\<close>

text \<open>
  \<open>gex()\<close> of cp_minigames_2 (the fidget pack), on the three readings of the
  accelerometer: \<open>return fabs(ax)+fabs(ay)+fabs(az) - 9.81f;\<close>
\<close>

definition gex_mg2 :: "real \<Rightarrow> real \<Rightarrow> real \<Rightarrow> real" where
  "gex_mg2 ax ay az = \<bar>ax\<bar> + \<bar>ay\<bar> + \<bar>az\<bar> - 9.81"

text \<open>
  \<open>gex()\<close> of cp_minigames_3:
  \<^verbatim>\<open>
  float mag = sqrtf(ax*ax + ay*ay + az*az);
  float ge  = fabsf(mag - 9.81f);
  if (ge < 0.05f) ge = 0.0f;
  return ge;
  \<close>
\<close>

definition gex_mg3 :: "real \<Rightarrow> real \<Rightarrow> real \<Rightarrow> real" where
  "gex_mg3 ax ay az =
     (let mag = sqrt (ax * ax + ay * ay + az * az);
          ge = \<bar>mag - 9.81\<bar>;
          ge = (if ge < 0.05 then 0 else ge)
      in ge)"

section \<open>Motion energy: Shaker Challenge (cp_minigames_3) and Twinkle (cp_minigames_2)\<close>

definition SHK_THRESH :: real where
  "SHK_THRESH = 1.2"

definition SHK_EN_FROM_G :: real where
  "SHK_EN_FROM_G = 0.045"

definition SHK_EN_DECAY :: real where
  "SHK_EN_DECAY = 0.985"

text \<open>
  The energy integration of one pass of the loop of \<open>runShakerForever\<close>:
  \<^verbatim>\<open>
  if (ge > SHK_THRESH) energy += ge * SHK_EN_FROM_G;
  energy *= SHK_EN_DECAY;
  if (energy < 0) energy = 0;
  if (energy > 2.0f) energy = 2.0f;
  \<close>
\<close>

definition shakerEnergy :: "real \<Rightarrow> real \<Rightarrow> real" where
  "shakerEnergy energy ge =
     (let energy = (if ge > SHK_THRESH then energy + ge * SHK_EN_FROM_G else energy);
          energy = energy * SHK_EN_DECAY;
          energy = (if energy < 0 then 0 else energy);
          energy = (if energy > 2.0 then 2.0 else energy)
      in energy)"

text \<open>
  \<open>uint8_t n = (uint8_t)constrain((int)(energy*6.0f + 0.5f), 0, 10);\<close>
\<close>

definition shakerMeter :: "real \<Rightarrow> uint8_t" where
  "shakerMeter energy = word_of_int (constrain (int_of_float (energy * 6.0 + 0.5)) 0 10)"

text \<open>
  The passes of the loop over the accelerometer samples they read, with the energy and
  the number of lit pixels after each. The loop leaves on a reset, a win or a timeout,
  so a round is a prefix of such a run; \<open>energy\<close> starts at 0.
\<close>

fun runShaker_trace :: "real \<Rightarrow> (real \<times> real \<times> real) list \<Rightarrow> (real \<times> uint8_t) list" where
  "runShaker_trace energy [] = []"
| "runShaker_trace energy ((ax, ay, az) # samples) =
     (let energy = shakerEnergy energy (gex_mg3 ax ay az);
          n = shakerMeter energy
      in (energy, n) # runShaker_trace energy samples)"

definition runShakerForever :: "(real \<times> real \<times> real) list \<Rightarrow> (real \<times> uint8_t) list" where
  "runShakerForever samples = runShaker_trace 0 samples"

definition ENERGY_DECAY :: real where
  "ENERGY_DECAY = 0.985"

definition ENERGY_FROM_SHAKE :: real where
  "ENERGY_FROM_SHAKE = 0.06"

text \<open>
  One pass of the loop of \<open>runTwinkleForever\<close>, as far as \<open>energy\<close> goes; \<open>reset\<close> is
  the result of \<open>abResetHeld()\<close> at the head of the pass.
  \<^verbatim>\<open>
  if (abResetHeld()) { pixelsOff(); energy=0; waitButtonsReleased(200); }
  ...
  float ge = gex();
  if (ge > 0.4f) energy += ge * ENERGY_FROM_SHAKE;
  energy *= ENERGY_DECAY;
  if (energy < 0) energy = 0; if (energy > 2.0f) energy = 2.0f;
  \<close>
\<close>

definition twinkleEnergy :: "real \<Rightarrow> bool \<Rightarrow> real \<Rightarrow> real" where
  "twinkleEnergy energy reset ge =
     (let energy = (if reset then 0 else energy);
          energy = (if ge > 0.4 then energy + ge * ENERGY_FROM_SHAKE else energy);
          energy = energy * ENERGY_DECAY;
          energy = (if energy < 0 then 0 else energy);
          energy = (if energy > 2.0 then 2.0 else energy)
      in energy)"

fun runTwinkle_trace :: "real \<Rightarrow> (bool \<times> real \<times> real \<times> real) list \<Rightarrow> real list" where
  "runTwinkle_trace energy [] = []"
| "runTwinkle_trace energy ((reset, ax, ay, az) # samples) =
     (let energy = twinkleEnergy energy reset (gex_mg2 ax ay az)
      in energy # runTwinkle_trace energy samples)"

definition runTwinkleForever :: "(bool \<times> real \<times> real \<times> real) list \<Rightarrow> real list" where
  "runTwinkleForever samples = runTwinkle_trace 0 samples"

section \<open>Spinner physics (cp_minigames_2)\<close>

definition DT_S :: real where
  "DT_S = 0.025"

definition DRAG :: real where
  "DRAG = 0.985"

definition KICK_GAIN :: real where
  "KICK_GAIN = 0.55"

definition FLICK_THRESH :: real where
  "FLICK_THRESH = 7.5"

definition FLICK_BONUS :: real where
  "FLICK_BONUS = 2.2"

definition OMEGA_MAX :: real where
  "OMEGA_MAX = 22.0"

text \<open>
  The unwrap of the angle difference:
  \<^verbatim>\<open>
  if (d >  (float)M_PI)  d -= 2.0f*(float)M_PI;
  if (d < -(float)M_PI)  d += 2.0f*(float)M_PI;
  \<close>
\<close>

definition unwrap :: "real \<Rightarrow> real" where
  "unwrap d =
     (let d = (if d > pi then d - 2 * pi else d);
          d = (if d < - pi then d + 2 * pi else d)
      in d)"

text \<open>
  The two loops that bring \<open>theta\<close> back after the integration:
  \<^verbatim>\<open>
  while (theta >  (float)M_PI) theta -= 2.0f*(float)M_PI;
  while (theta < -(float)M_PI) theta += 2.0f*(float)M_PI;
  \<close>
  Each terminates on every real: the number of turns left goes down.
\<close>

function wrapAbove :: "real \<Rightarrow> real" where
  "wrapAbove theta = (if theta > pi then wrapAbove (theta - 2 * pi) else theta)"
  by pat_completeness auto
termination
proof (relation "measure (\<lambda>theta. nat \<lceil>(theta - pi) / (2 * pi)\<rceil>)")
  show "wf (measure (\<lambda>theta. nat \<lceil>(theta - pi) / (2 * pi)\<rceil>))" by simp
next
  fix theta :: real
  assume gt: "pi < theta"
  have "(theta - 2 * pi - pi) / (2 * pi) = (theta - pi) / (2 * pi) - 1"
    by (simp add: field_simps)
  then have eq: "\<lceil>(theta - 2 * pi - pi) / (2 * pi)\<rceil> = \<lceil>(theta - pi) / (2 * pi)\<rceil> - 1"
    by (simp only: ceiling_diff_one)
  have "0 < (theta - pi) / (2 * pi)"
    using gt by simp
  then have "0 < \<lceil>(theta - pi) / (2 * pi)\<rceil>"
    by (simp add: less_ceiling_iff)
  then have "nat (\<lceil>(theta - pi) / (2 * pi)\<rceil> - 1) < nat \<lceil>(theta - pi) / (2 * pi)\<rceil>"
    by linarith
  then show "(theta - 2 * pi, theta) \<in> measure (\<lambda>theta. nat \<lceil>(theta - pi) / (2 * pi)\<rceil>)"
    by (simp only: in_measure eq)
qed

function wrapBelow :: "real \<Rightarrow> real" where
  "wrapBelow theta = (if theta < - pi then wrapBelow (theta + 2 * pi) else theta)"
  by pat_completeness auto
termination
proof (relation "measure (\<lambda>theta. nat \<lceil>(- pi - theta) / (2 * pi)\<rceil>)")
  show "wf (measure (\<lambda>theta. nat \<lceil>(- pi - theta) / (2 * pi)\<rceil>))" by simp
next
  fix theta :: real
  assume lt: "theta < - pi"
  have "(- pi - (theta + 2 * pi)) / (2 * pi) = (- pi - theta) / (2 * pi) - 1"
    by (simp add: field_simps)
  then have eq: "\<lceil>(- pi - (theta + 2 * pi)) / (2 * pi)\<rceil> = \<lceil>(- pi - theta) / (2 * pi)\<rceil> - 1"
    by (simp only: ceiling_diff_one)
  have "0 < (- pi - theta) / (2 * pi)"
    using lt by simp
  then have "0 < \<lceil>(- pi - theta) / (2 * pi)\<rceil>"
    by (simp add: less_ceiling_iff)
  then have "nat (\<lceil>(- pi - theta) / (2 * pi)\<rceil> - 1) < nat \<lceil>(- pi - theta) / (2 * pi)\<rceil>"
    by linarith
  then show "(theta + 2 * pi, theta) \<in> measure (\<lambda>theta. nat \<lceil>(- pi - theta) / (2 * pi)\<rceil>)"
    by (simp only: in_measure eq)
qed

declare wrapAbove.simps [simp del]
declare wrapBelow.simps [simp del]

text \<open>The variables of \<open>runSpinnerForever\<close> that the physics reads and writes.\<close>

record spinner =
  theta :: real
  omega :: real
  lastAngle :: real
  lastStep :: ulong
  posOnly :: bool

text \<open>
  The elapsed time of a step in seconds: \<open>float dt = (now - lastStep) / 1000.0f;\<close>
\<close>

definition stepDt :: "spinner \<Rightarrow> ulong \<Rightarrow> real" where
  "stepDt s now = real (unat (now - lastStep s)) / 1000.0"

text \<open>
  One pass of the loop from the pacing test on, at \<open>now = millis()\<close> with
  \<open>ang = ringAngle()\<close>: nothing changes before \<open>DT_S\<close> has elapsed, else
  \<^verbatim>\<open>
  float d = ang - lastAngle;   /* unwrap */
  float angVel = d / dt;
  lastAngle = ang;
  omega += KICK_GAIN * angVel;
  if (fabs(angVel) > FLICK_THRESH) omega += (angVel > 0 ? +FLICK_BONUS : -FLICK_BONUS);
  if (posOnly && omega < 0) omega *= -0.6f;
  omega *= powf(DRAG, dt / DT_S);
  if (omega >  OMEGA_MAX) omega =  OMEGA_MAX;
  if (omega < -OMEGA_MAX) omega = -OMEGA_MAX;
  theta += omega * dt;         /* then the two while loops */
  \<close>
\<close>

definition spinnerStep :: "spinner \<Rightarrow> ulong \<Rightarrow> real \<Rightarrow> spinner" where
  "spinnerStep s now ang =
     (if now - lastStep s < word_of_int (int_of_float (DT_S * 1000.0)) then s
      else
        let dt = stepDt s now;
            d = unwrap (ang - lastAngle s);
            angVel = d / dt;
            om = omega s + KICK_GAIN * angVel;
            om = (if \<bar>angVel\<bar> > FLICK_THRESH
                  then om + (if angVel > 0 then FLICK_BONUS else - FLICK_BONUS) else om);
            om = (if posOnly s \<and> om < 0 then om * (- 0.6) else om);
            om = om * (DRAG powr (dt / DT_S));
            om = (if om > OMEGA_MAX then OMEGA_MAX else om);
            om = (if om < - OMEGA_MAX then - OMEGA_MAX else om);
            th = wrapBelow (wrapAbove (theta s + om * dt))
        in s\<lparr>theta := th, omega := om, lastAngle := ang, lastStep := now\<rparr>)"

section \<open>Single precision, where the rounding is kept\<close>

text \<open>
  The reaction window of Whack-a-Mole is a \<open>uint16_t\<close>; every update multiplies or
  divides it by the float \<open>0.93f\<close> and cuts the result back to an integer, so here the
  rounding of the float operation decides the value and is modelled: \<open>f32 x\<close> is the
  binary32 number nearest to the real \<open>x\<close>, ties to even (24 significant bits), for
  \<open>x\<close> in the normal range; the window arithmetic stays between \<open>0.93\<close> and \<open>2^17\<close>.

  \<open>rhe\<close> rounds to the nearest integer, ties to even; \<open>bexp x\<close> is the binary
  exponent of a positive \<open>x\<close>, the \<open>e\<close> with \<open>2^e \<le> x < 2^(e+1)\<close>; \<open>pow2 e\<close> is
  \<open>2^e\<close> for an integer \<open>e\<close>.
\<close>

definition rhe :: "real \<Rightarrow> int" where
  "rhe x =
     (let f = \<lfloor>x\<rfloor>; r = x - of_int f
      in if r < 1 / 2 then f else if r > 1 / 2 then f + 1 else if even f then f else f + 1)"

definition bexp :: "real \<Rightarrow> int" where
  "bexp x =
     (if 1 \<le> x then int (floorlog 2 (nat \<lfloor>x\<rfloor>)) - 1
      else - int (floorlog 2 (nat (\<lceil>1 / x\<rceil> - 1))))"

definition pow2 :: "int \<Rightarrow> real" where
  "pow2 e = (if 0 \<le> e then 2 ^ nat e else 1 / 2 ^ nat (- e))"

definition f32 :: "real \<Rightarrow> real" where
  "f32 x =
     (if x = 0 then 0
      else let a = \<bar>x\<bar>; u = pow2 (bexp a - 23)
           in sgn x * (of_int (rhe (a / u)) * u))"

section \<open>Whack-a-Mole: the reaction window (cp_minigames_1)\<close>

definition START_WINDOW_MS :: uint16_t where
  "START_WINDOW_MS = 900"

definition MIN_WINDOW_MS :: uint16_t where
  "MIN_WINDOW_MS = 250"

text \<open>\<open>const float DECAY = 0.93f;\<close> the literal is rounded to a float.\<close>

definition DECAY :: real where
  "DECAY = f32 0.93"

text \<open>
  \<open>(uint16_t)x\<close> on a float cuts towards zero. C defines it only when the result fits
  the type; the windows below never leave that range.
\<close>

definition uint16_of_float :: "real \<Rightarrow> uint16_t" where
  "uint16_of_float x = word_of_int (int_of_float x)"

text \<open>
  After a hit:
  \<open>window = (uint16_t)max((int)MIN_WINDOW_MS, (int)((uint16_t)(window * DECAY)));\<close>
\<close>

definition windowHit :: "uint16_t \<Rightarrow> uint16_t" where
  "windowHit window =
     word_of_int (max (uint MIN_WINDOW_MS)
                      (uint (uint16_of_float (f32 (real (unat window) * DECAY)))))"

text \<open>
  After a miss:
  \<open>window = (uint16_t)min((int)START_WINDOW_MS, (int)((uint16_t)(window / DECAY)));\<close>
\<close>

definition windowMiss :: "uint16_t \<Rightarrow> uint16_t" where
  "windowMiss window =
     word_of_int (min (uint START_WINDOW_MS)
                      (uint (uint16_of_float (f32 (real (unat window) / DECAY)))))"

definition windowUpdate :: "bool \<Rightarrow> uint16_t \<Rightarrow> uint16_t" where
  "windowUpdate hit window = (if hit then windowHit window else windowMiss window)"

text \<open>
  The windows of a round after each mole, given which moles were hit; a round starts
  with \<open>window = START_WINDOW_MS\<close>.
\<close>

fun windowTrace :: "uint16_t \<Rightarrow> bool list \<Rightarrow> uint16_t list" where
  "windowTrace window [] = []"
| "windowTrace window (hit # hits) =
     (let window = windowUpdate hit window in window # windowTrace window hits)"

definition roundWindows :: "bool list \<Rightarrow> uint16_t list" where
  "roundWindows hits = windowTrace START_WINDOW_MS hits"

definition inWindow :: "uint16_t \<Rightarrow> bool" where
  "inWindow window \<longleftrightarrow> MIN_WINDOW_MS \<le> window \<and> window \<le> START_WINDOW_MS"

section \<open>Simon: the capacitive pads (cp_minigames_1)\<close>

definition CAP_SAMPLES :: uint8_t where
  "CAP_SAMPLES = 16"

definition CAP_DELTA_MIN :: uint16_t where
  "CAP_DELTA_MIN = 120"

definition CAP_RELEASE_HYST :: uint16_t where
  "CAP_RELEASE_HYST = 60"

text \<open>
  \<open>struct Pad\<close> and the table \<open>PADS\<close>; the colour fields \<open>r\<close>, \<open>g\<close>, \<open>b\<close> are
  spelled out.
\<close>

record Pad =
  pixelIndex :: uint8_t
  freq :: uint16_t
  red :: uint8_t
  green :: uint8_t
  blue :: uint8_t
  arduinoPin :: pin

definition PADS :: "Pad list" where
  "PADS =
    [\<lparr>pixelIndex = 8, freq = 440, red = 40, green = 0, blue = 0, arduinoPin = A2\<rparr>,
     \<lparr>pixelIndex = 1, freq = 523, red = 0, green = 40, blue = 0, arduinoPin = A5\<rparr>,
     \<lparr>pixelIndex = 6, freq = 659, red = 0, green = 0, blue = 40, arduinoPin = A1\<rparr>,
     \<lparr>pixelIndex = 3, freq = 784, red = 40, green = 25, blue = 0, arduinoPin = A6\<rparr>]"

text \<open>
  \<open>simonCalibrateCaps\<close>: for each pad, \<open>CAP_SAMPLES\<close> readings 2 ms apart are summed in
  a \<open>uint32_t\<close> and the mean is stored in \<open>capBase\<close>.
\<close>

definition calibratePad :: "board \<Rightarrow> pin \<Rightarrow> nat \<Rightarrow> uint16_t" where
  "calibratePad bd p now =
     ucast ((\<Sum>k \<leftarrow> [0..<unat CAP_SAMPLES]. (ucast (readCap bd p (now + 2 * k)) :: ulong))
            div ucast CAP_SAMPLES)"

definition simonCalibrateCaps :: "board \<Rightarrow> nat \<Rightarrow> uint16_t list \<times> nat" where
  "simonCalibrateCaps bd now =
     (map (\<lambda>i. calibratePad bd (arduinoPin (PADS ! i)) (now + 2 * unat CAP_SAMPLES * i)) [0..<4],
      now + 2 * unat CAP_SAMPLES * 4)"

text \<open>
  \<^verbatim>\<open>
  static bool simonPadPressed(uint8_t idx) {
    uint16_t v = CircuitPlayground.readCap(PADS[idx].arduinoPin);
    uint16_t margin = CAP_DELTA_MIN;
    return v > (uint16_t)(capBase[idx] + margin);
  }
  \<close>
  \<open>capBase\<close> is the global array of the four baselines, passed here as a list.
\<close>

definition simonPadPressed :: "board \<Rightarrow> uint16_t list \<Rightarrow> nat \<Rightarrow> nat \<Rightarrow> bool" where
  "simonPadPressed bd capBase idx now =
     (let v = readCap bd (arduinoPin (PADS ! idx)) now;
          margin = CAP_DELTA_MIN
      in v > capBase ! idx + margin)"

text \<open>
  The first loop of \<open>simonWaitPadEdge\<close> waits until no pad reads above
  \<open>(uint16_t)(capBase[i] + CAP_DELTA_MIN - CAP_RELEASE_HYST)\<close>, testing every 5 ms.
  \<open>anyHigh\<close> is one scan of the four pads. The loop need not end (a pad may stay
  touched), so its result is an option.
\<close>

definition anyHigh :: "board \<Rightarrow> uint16_t list \<Rightarrow> nat \<Rightarrow> bool" where
  "anyHigh bd capBase now =
     list_ex (\<lambda>i. readCap bd (arduinoPin (PADS ! i)) now
                    > capBase ! i + CAP_DELTA_MIN - CAP_RELEASE_HYST) [0..<4]"

partial_function (option) waitAllReleased :: "board \<Rightarrow> uint16_t list \<Rightarrow> nat \<Rightarrow> nat option" where
  "waitAllReleased bd capBase now =
     (if anyHigh bd capBase now then waitAllReleased bd capBase (now + 5) else Some now)"

text \<open>
  The confirmation of a candidate press,
  \<open>while (simonPadPressed(i) && (millis() - t) < 40) { delay(5); }\<close>,
  as the time at which the loop is left.
\<close>

function confirmHold :: "board \<Rightarrow> uint16_t list \<Rightarrow> nat \<Rightarrow> ulong \<Rightarrow> nat \<Rightarrow> nat" where
  "confirmHold bd capBase i t now =
     (if simonPadPressed bd capBase i now \<and> millis now - t < 40
      then confirmHold bd capBase i t (now + 5) else now)"
  by pat_completeness auto
termination
proof (relation "measure (\<lambda>(bd, capBase, i, t, now). 40 - unat (millis now - t))")
  show "wf (measure (\<lambda>(bd, capBase, i, t, now). 40 - unat (millis now - t)))"
    by simp
next
  fix bd :: board and capBase :: "uint16_t list" and i :: nat and t :: ulong and now :: nat
  assume "simonPadPressed bd capBase i now \<and> millis now - t < 40"
  then have lt: "unat (millis now - t) < 40"
    by (simp add: word_less_nat_alt)
  then have "unat (millis (now + 5) - t) = unat (millis now - t) + 5"
    by (intro elapsed_advance) simp
  with lt show "((bd, capBase, i, t, now + 5), (bd, capBase, i, t, now))
        \<in> measure (\<lambda>(bd, capBase, i, t, now). 40 - unat (millis now - t))"
    by simp
qed

declare confirmHold.simps [simp del]

text \<open>
  One pass of the second loop over the pads: a pad that reads pressed is confirmed, and
  returned if it still reads pressed after the confirmation; else the scan goes on
  with the next pad.
\<close>

fun scanPads :: "board \<Rightarrow> uint16_t list \<Rightarrow> nat list \<Rightarrow> nat \<Rightarrow> nat option \<times> nat" where
  "scanPads bd capBase [] now = (None, now)"
| "scanPads bd capBase (i # rest) now =
     (if simonPadPressed bd capBase i now
      then let now' = confirmHold bd capBase i (millis now) now
           in if simonPadPressed bd capBase i now' then (Some i, now')
              else scanPads bd capBase rest now'
      else scanPads bd capBase rest now)"

partial_function (option) waitPress ::
    "board \<Rightarrow> uint16_t list \<Rightarrow> nat \<Rightarrow> (int8_t \<times> nat) option" where
  "waitPress bd capBase now =
     (case scanPads bd capBase [0..<4] now of
        (Some i, t) \<Rightarrow> Some (word_of_nat i, t)
      | (None, t) \<Rightarrow> waitPress bd capBase (t + 5))"

definition simonWaitPadEdge ::
    "board \<Rightarrow> uint16_t list \<Rightarrow> nat \<Rightarrow> (int8_t \<times> nat) option" where
  "simonWaitPadEdge bd capBase now =
     (case waitAllReleased bd capBase now of
        None \<Rightarrow> None
      | Some t \<Rightarrow> waitPress bd capBase t)"

text \<open>
  The reading of pad \<open>i\<close> and its two thresholds as integers, for the statements below.
\<close>

definition padReading :: "board \<Rightarrow> nat \<Rightarrow> nat \<Rightarrow> uint16_t" where
  "padReading bd i now = readCap bd (arduinoPin (PADS ! i)) now"

definition pressThreshold :: "uint16_t list \<Rightarrow> nat \<Rightarrow> int" where
  "pressThreshold capBase i = uint (capBase ! i) + uint CAP_DELTA_MIN"

definition releaseThreshold :: "uint16_t list \<Rightarrow> nat \<Rightarrow> int" where
  "releaseThreshold capBase i = uint (capBase ! i) + uint CAP_DELTA_MIN - uint CAP_RELEASE_HYST"

text \<open>
  Three boards for the scenarios: on \<open>demoBoard\<close> pad 0 (pin A2) reads 650 at time 0,
  580 at time 5 and 540 at time 10; on \<open>noiseBoard\<close> it reads 650 at time 0 only and 580
  after; on \<open>touchBoard\<close> it reads 650 from time 20 on. Every other reading is 500.
\<close>

definition demoBoard :: board where
  "demoBoard = \<lparr>leftButton = \<lambda>t. False, rightButton = \<lambda>t. False,
     readCap = \<lambda>p t. if p = A2 then (if t = 0 then 650 else if t = 5 then 580
                                      else if t = 10 then 540 else 500) else 500\<rparr>"

definition noiseBoard :: board where
  "noiseBoard = \<lparr>leftButton = \<lambda>t. False, rightButton = \<lambda>t. False,
     readCap = \<lambda>p t. if p = A2 then (if t = 0 then 650 else 580) else 500\<rparr>"

definition touchBoard :: board where
  "touchBoard = \<lparr>leftButton = \<lambda>t. False, rightButton = \<lambda>t. False,
     readCap = \<lambda>p t. if p = A2 \<and> 20 \<le> t then 650 else 500\<rparr>"

section \<open>Tug-of-War (cp_minigames_3)\<close>

definition TUG_TRACK_LEN :: uint8_t where
  "TUG_TRACK_LEN = 9"

definition CPU_PULSE_MS :: uint16_t where
  "CPU_PULSE_MS = 260"

definition CPU_PUSH_CHANCE :: uint8_t where
  "CPU_PUSH_CHANCE = 55"

text \<open>
  \<open>pos--; if (pos < -(int8_t)TUG_TRACK_LEN) pos = -(int8_t)TUG_TRACK_LEN;\<close>
  The decrement is done on the \<open>int8_t\<close> itself (it wraps at the width), the comparison
  on the promoted \<open>int\<close> values.
\<close>

definition pullLeft :: "int8_t \<Rightarrow> int8_t" where
  "pullLeft pos =
     (let pos = pos - 1
      in if sint pos < - sint (ucast TUG_TRACK_LEN :: int8_t)
         then word_of_int (- sint (ucast TUG_TRACK_LEN :: int8_t)) else pos)"

text \<open>
  \<open>pos++; if (pos > (int8_t)TUG_TRACK_LEN) pos = (int8_t)TUG_TRACK_LEN;\<close>
\<close>

definition pullRight :: "int8_t \<Rightarrow> int8_t" where
  "pullRight pos =
     (let pos = pos + 1
      in if sint pos > sint (ucast TUG_TRACK_LEN :: int8_t)
         then (ucast TUG_TRACK_LEN :: int8_t) else pos)"

datatype tug_end = Reset | LeftWins | RightWins | Timeout

text \<open>
  What one pass of the loop of \<open>runTugSolo\<close> reads from the board: the result of
  \<open>abResetHeld()\<close>, \<open>millis()\<close>, \<open>leftButton()\<close> and the value \<open>random(0,100)\<close> returns
  (read only when the CPU pulse is due).
\<close>

record solo_obs =
  so_reset :: bool
  so_now :: ulong
  so_left :: bool
  so_random :: int

record solo_state =
  s_pos :: int8_t
  s_lastCpu :: ulong

text \<open>
  One pass of the \<open>for(;;)\<close> of \<open>runTugSolo\<close>: the new state, and how the round ended if
  this pass returned. Drawing and tones do not touch \<open>pos\<close> and are left out.
\<close>

definition tugSoloStep :: "ulong \<Rightarrow> solo_state \<Rightarrow> solo_obs \<Rightarrow> solo_state \<times> tug_end option" where
  "tugSoloStep tEnd s ob =
     (if so_reset ob then (s, Some Reset)
      else
        let now = so_now ob;
            pos = (if so_left ob then pullLeft (s_pos s) else s_pos s);
            due = (now - s_lastCpu s \<ge> ucast CPU_PULSE_MS);
            lastCpu = (if due then now else s_lastCpu s);
            pos = (if due \<and> (word_of_int (so_random ob) :: uint8_t) < CPU_PUSH_CHANCE
                   then pullRight pos else pos);
            s' = \<lparr>s_pos = pos, s_lastCpu = lastCpu\<rparr>
        in if sint pos \<le> - sint (ucast TUG_TRACK_LEN :: int8_t) then (s', Some LeftWins)
           else if sint pos \<ge> sint (ucast TUG_TRACK_LEN :: int8_t) then (s', Some RightWins)
           else if now \<ge> tEnd then (s', Some Timeout)
           else (s', None))"

text \<open>
  The loop itself, over the observations of its passes: the positions after every pass,
  up to and including the pass that returned.
\<close>

fun runTugSolo_trace :: "ulong \<Rightarrow> solo_state \<Rightarrow> solo_obs list \<Rightarrow> int8_t list" where
  "runTugSolo_trace tEnd s [] = []"
| "runTugSolo_trace tEnd s (ob # obs) =
     (case tugSoloStep tEnd s ob of
        (s', Some e) \<Rightarrow> [s_pos s']
      | (s', None) \<Rightarrow> s_pos s' # runTugSolo_trace tEnd s' obs)"

text \<open>
  \<open>runTugSolo\<close> starts with \<open>pos = 0\<close>, \<open>lastCpu = millis()\<close> and
  \<open>tEnd = millis() + SOLO_ROUND_MS\<close>.
\<close>

definition SOLO_ROUND_MS :: uint16_t where
  "SOLO_ROUND_MS = 20000"

definition runTugSolo :: "ulong \<Rightarrow> solo_obs list \<Rightarrow> int8_t list" where
  "runTugSolo t0 obs =
     runTugSolo_trace (t0 + ucast SOLO_ROUND_MS) \<lparr>s_pos = 0, s_lastCpu = t0\<rparr> obs"

text \<open>
  One pass of the loop of \<open>runTugTwoPlayer\<close> reads \<open>abResetHeld()\<close>, \<open>leftButton()\<close> and
  \<open>rightButton()\<close>; both pulls may happen in the same pass, left first.
\<close>

record duo_obs =
  do_reset :: bool
  do_left :: bool
  do_right :: bool

definition tugTwoStep :: "int8_t \<Rightarrow> duo_obs \<Rightarrow> int8_t \<times> tug_end option" where
  "tugTwoStep pos ob =
     (if do_reset ob then (pos, Some Reset)
      else
        let pos = (if do_left ob then pullLeft pos else pos);
            pos = (if do_right ob then pullRight pos else pos)
        in if sint pos \<le> - sint (ucast TUG_TRACK_LEN :: int8_t) then (pos, Some LeftWins)
           else if sint pos \<ge> sint (ucast TUG_TRACK_LEN :: int8_t) then (pos, Some RightWins)
           else (pos, None))"

fun runTugTwoPlayer_trace :: "int8_t \<Rightarrow> duo_obs list \<Rightarrow> int8_t list" where
  "runTugTwoPlayer_trace pos [] = []"
| "runTugTwoPlayer_trace pos (ob # obs) =
     (case tugTwoStep pos ob of
        (pos', Some e) \<Rightarrow> [pos']
      | (pos', None) \<Rightarrow> pos' # runTugTwoPlayer_trace pos' obs)"

definition runTugTwoPlayer :: "duo_obs list \<Rightarrow> int8_t list" where
  "runTugTwoPlayer obs = runTugTwoPlayer_trace 0 obs"

definition onTrack :: "int8_t \<Rightarrow> bool" where
  "onTrack pos \<longleftrightarrow> - uint TUG_TRACK_LEN \<le> sint pos \<and> sint pos \<le> uint TUG_TRACK_LEN"

chapter \<open>What the sketches guarantee\<close>

section \<open>The A+B long press\<close>

lemma poll_due:
  assumes "j \<le> 150"
  shows "ucast AB_RESET_MS \<le> millis (t + 10 * j) - millis t \<longleftrightarrow> j = 150"
proof -
  have "unat (word_of_nat (10 * j) :: ulong) = (10 * j) mod 2 ^ LENGTH(32)"
    by (rule unat_of_nat)
  also have "\<dots> = 10 * j"
    using assms by simp
  finally have "unat (word_of_nat (10 * j) :: ulong) = 10 * j" .
  moreover have "unat (ucast AB_RESET_MS :: ulong) = 1500"
    by (simp add: unat_ucast_16_32 AB_RESET_MS_def)
  moreover have "millis (t + 10 * j) - millis t = (word_of_nat (10 * j) :: ulong)"
    by (simp add: millis_def)
  ultimately show ?thesis
    using assms by (simp add: word_le_nat_alt)
qed

text \<open>
  The loop, entered at its \<open>j\<close>-th test of the buttons, 10 ms apart: it returns true
  after the test at 1500 ms if every test up to then found both buttons down, and false
  at the first test that did not.
\<close>

lemma abHoldLoop_polls:
  assumes "j \<le> 150"
  shows "abHoldLoop b AB_RESET_MS (millis t) (t + 10 * j) =
           (if \<forall>k. j \<le> k \<and> k \<le> 150 \<longrightarrow> bothButtons b (t + 10 * k)
            then (True, t + 1780)
            else (False, t + 10 * (LEAST k. j \<le> k \<and> \<not> bothButtons b (t + 10 * k))))"
  using assms
proof (induction "150 - j" arbitrary: j)
  case 0
  then have j: "j = 150" by simp
  show ?case
  proof (cases "bothButtons b (t + 10 * 150)")
    case True
    then have "\<forall>k. 150 \<le> k \<and> k \<le> 150 \<longrightarrow> bothButtons b (t + 10 * k)"
      by (metis le_antisym)
    then show ?thesis
      using True poll_due [of 150 t] by (subst abHoldLoop.simps) (simp add: j)
  next
    case False
    then have "(LEAST k. 150 \<le> k \<and> \<not> bothButtons b (t + 10 * k)) = 150"
      by (intro Least_equality) simp_all
    then show ?thesis
      using False by (subst abHoldLoop.simps) (auto simp: j)
  qed
next
  case (Suc n)
  then have j: "j < 150" "n = 150 - Suc j" "Suc j \<le> 150" by simp_all
  show ?case
  proof (cases "bothButtons b (t + 10 * j)")
    case False
    then have "(LEAST k. j \<le> k \<and> \<not> bothButtons b (t + 10 * k)) = j"
      by (intro Least_equality) simp_all
    then show ?thesis
      using False j by (subst abHoldLoop.simps) auto
  next
    case True
    have nd: "\<not> ucast AB_RESET_MS \<le> millis (t + 10 * j) - millis t"
      using poll_due [of j t] j by simp
    have step: "abHoldLoop b AB_RESET_MS (millis t) (t + 10 * j) =
                abHoldLoop b AB_RESET_MS (millis t) (t + 10 * Suc j)"
      using True nd by (subst abHoldLoop.simps) (simp add: ac_simps)
    have pred: "(j \<le> k \<and> \<not> bothButtons b (t + 10 * k)) \<longleftrightarrow>
                (Suc j \<le> k \<and> \<not> bothButtons b (t + 10 * k))" for k
      using True by (metis Suc_leI le_neq_implies_less Suc_leD)
    have all: "(\<forall>k. j \<le> k \<and> k \<le> 150 \<longrightarrow> bothButtons b (t + 10 * k)) \<longleftrightarrow>
               (\<forall>k. Suc j \<le> k \<and> k \<le> 150 \<longrightarrow> bothButtons b (t + 10 * k))"
      using pred by blast
    have least: "(LEAST k. j \<le> k \<and> \<not> bothButtons b (t + 10 * k)) =
                 (LEAST k. Suc j \<le> k \<and> \<not> bothButtons b (t + 10 * k))"
      using pred by simp
    show ?thesis
      unfolding step all least using Suc.hyps(1) [OF j(2) j(3)] .
  qed
qed

lemma abResetHeld_polls:
  "abResetHeld b AB_RESET_MS t =
     (if \<forall>k\<le>150. bothButtons b (t + 10 * k) then (True, t + 1780)
      else (False, t + 10 * (LEAST k. \<not> bothButtons b (t + 10 * k))))"
proof (cases "bothButtons b t")
  case True
  then show ?thesis
    using abHoldLoop_polls [of 0 b t] by (simp add: abResetHeld_def bothButtons_def)
next
  case False
  then have "(LEAST k. \<not> bothButtons b (t + 10 * k)) = 0"
    by (intro Least_equality) simp_all
  moreover have "\<not> (\<forall>k\<le>150. bothButtons b (t + 10 * k))"
    using False by (metis add.right_neutral mult_0_right zero_le)
  ultimately show ?thesis
    using False by (simp add: abResetHeld_def bothButtons_def)
qed

text \<open>The loop reads the buttons from the time of its call on, and nothing earlier.\<close>

lemma abHoldLoop_sameFrom:
  "sameFrom now b b' \<Longrightarrow> abHoldLoop b ms start now = abHoldLoop b' ms start now"
proof (induction b ms start now rule: abHoldLoop.induct)
  case (1 b ms start now)
  have both: "bothButtons b now = bothButtons b' now"
    using "1.prems" by (simp add: sameFrom_def bothButtons_def)
  have nxt: "sameFrom (now + 10) b b'"
    using "1.prems" by (simp add: sameFrom_def)
  show ?case
  proof (cases "bothButtons b now \<and> \<not> ucast ms \<le> millis now - start")
    case True
    then have "abHoldLoop b ms start (now + 10) = abHoldLoop b' ms start (now + 10)"
      using "1.IH" nxt by simp
    with True both show ?thesis
      by (subst abHoldLoop.simps, subst (2) abHoldLoop.simps) simp
  next
    case False
    with both show ?thesis
      by (subst abHoldLoop.simps, subst (2) abHoldLoop.simps) auto
  qed
qed

lemma abResetHeld_sameFrom:
  assumes "sameFrom t b b'"
  shows "abResetHeld b ms t = abResetHeld b' ms t"
proof -
  have "leftButton b t = leftButton b' t" "rightButton b t = rightButton b' t"
    using assms by (simp_all add: sameFrom_def)
  then show ?thesis
    using abHoldLoop_sameFrom [OF assms] by (simp add: abResetHeld_def)
qed

lemma heldFor_polls:
  assumes "heldFor b t d"
  shows "(\<forall>k\<le>150. bothButtons b (t + 10 * k)) \<longleftrightarrow> 1500 \<le> d"
proof
  assume "\<forall>k\<le>150. bothButtons b (t + 10 * k)"
  then have "bothButtons b (t + 10 * 150)" by blast
  with assms have "t + 10 * 150 \<le> t + d" by (simp add: heldFor_def)
  then show "1500 \<le> d" by simp
next
  assume d: "1500 \<le> d"
  show "\<forall>k\<le>150. bothButtons b (t + 10 * k)"
  proof (intro allI impI)
    fix k :: nat
    assume "k \<le> 150"
    with d have "t + 10 * k \<le> t + d" by simp
    with assms show "bothButtons b (t + 10 * k)" by (simp add: heldFor_def)
  qed
qed

text \<open>
  The call returns false at the first test that finds a button up, and true after the
  test at 1500 ms if none did.
\<close>

lemma abResetHeld_all_down:
  assumes "\<forall>k\<le>150. bothButtons b (t + 10 * k)"
  shows "abResetHeld b AB_RESET_MS t = (True, t + 1780)"
  using assms by (simp add: abResetHeld_polls)

lemma abResetHeld_first_release:
  assumes j: "j \<le> 150"
    and before: "\<forall>k<j. bothButtons b (t + 10 * k)"
    and up: "\<not> bothButtons b (t + 10 * j)"
  shows "abResetHeld b AB_RESET_MS t = (False, t + 10 * j)"
proof -
  have n: "\<not> (\<forall>k\<le>150. bothButtons b (t + 10 * k))"
    using j up by blast
  have "(LEAST k. \<not> bothButtons b (t + 10 * k)) = j"
  proof (rule Least_equality)
    show "\<not> bothButtons b (t + 10 * j)" by (rule up)
  next
    fix k :: nat
    assume "\<not> bothButtons b (t + 10 * k)"
    with before have "\<not> k < j" by blast
    then show "j \<le> k" by simp
  qed
  with n show ?thesis by (simp add: abResetHeld_polls)
qed

text \<open>
  Only the 151 tests count: two boards that agree at the times of the tests give the
  same result, whatever the buttons do between two tests.
\<close>

lemma abResetHeld_samples:
  assumes agree: "\<forall>k\<le>150. bothButtons b' (t + 10 * k) = bothButtons b (t + 10 * k)"
  shows "abResetHeld b' AB_RESET_MS t = abResetHeld b AB_RESET_MS t"
proof (cases "\<forall>k\<le>150. bothButtons b (t + 10 * k)")
  case True
  with agree have "\<forall>k\<le>150. bothButtons b' (t + 10 * k)" by simp
  with True show ?thesis by (simp add: abResetHeld_all_down)
next
  case False
  then obtain k0 where k0: "k0 \<le> 150" "\<not> bothButtons b (t + 10 * k0)" by blast
  define j where "j = (LEAST k. \<not> bothButtons b (t + 10 * k))"
  have up: "\<not> bothButtons b (t + 10 * j)"
    unfolding j_def using k0(2) by (rule LeastI [of "\<lambda>k. \<not> bothButtons b (t + 10 * k)"])
  have "j \<le> k0"
    unfolding j_def using k0(2) by (rule Least_le [of "\<lambda>k. \<not> bothButtons b (t + 10 * k)"])
  with k0(1) have j: "j \<le> 150" by simp
  have before: "\<forall>k<j. bothButtons b (t + 10 * k)"
  proof (intro allI impI)
    fix k :: nat
    assume "k < j"
    then have "\<not> \<not> bothButtons b (t + 10 * k)"
      unfolding j_def by (rule not_less_Least)
    then show "bothButtons b (t + 10 * k)" by simp
  qed
  have up': "\<not> bothButtons b' (t + 10 * j)"
    using agree j up by simp
  have before': "\<forall>k<j. bothButtons b' (t + 10 * k)"
    using agree j before by simp
  show ?thesis
    using abResetHeld_first_release [OF j before up]
      abResetHeld_first_release [OF j before' up'] by simp
qed

text \<open>
  Claim C4, as amended. The clock advances only in \<open>delay()\<close>, so
  \<open>abResetHeld(AB_RESET_MS)\<close>, called at time \<open>t\<close>, tests the buttons at the call and
  then every 10 ms, at \<open>t, t + 10, ..., t + 1500\<close>. It returns true exactly if both
  buttons are down at each of these 151 tests, once, at \<open>t + 1500\<close> plus the 280 ms of
  the blink; it returns false at the first test that finds a button up. Two boards that
  agree at the tests give the same result: a release between two tests is not seen.
  If the buttons are held from \<open>t\<close> for \<open>d\<close> ms and then let go (both down at every
  millisecond from \<open>t\<close> to \<open>t + d\<close> inclusive, not both down at any later one), the
  call returns true exactly if \<open>d\<close> is at least \<open>AB_RESET_MS\<close>: false for
  \<open>AB_RESET_MS - 1\<close>, true for \<open>AB_RESET_MS\<close>. The timer lives within one call: what
  the buttons did before \<open>t\<close> has no effect on the call at \<open>t\<close>, so after a release
  that a test has seen, the next call counts from zero.
\<close>

theorem abResetHeld_long_press:
  "((\<forall>k\<le>150. bothButtons b (t + 10 * k)) \<longrightarrow>
      abResetHeld b AB_RESET_MS t = (True, t + 1500 + 280)) \<and>
   (j \<le> 150 \<and> (\<forall>k<j. bothButtons b (t + 10 * k)) \<and> \<not> bothButtons b (t + 10 * j) \<longrightarrow>
      abResetHeld b AB_RESET_MS t = (False, t + 10 * j)) \<and>
   ((\<forall>k\<le>150. bothButtons b' (t + 10 * k) = bothButtons b (t + 10 * k)) \<longrightarrow>
      abResetHeld b' AB_RESET_MS t = abResetHeld b AB_RESET_MS t) \<and>
   (fst (abResetHeld b AB_RESET_MS t) \<longleftrightarrow> (\<forall>k\<le>150. bothButtons b (t + 10 * k))) \<and>
   (heldFor b t d \<longrightarrow> (fst (abResetHeld b AB_RESET_MS t) \<longleftrightarrow> unat AB_RESET_MS \<le> d)) \<and>
   (heldFor b t (unat AB_RESET_MS - 1) \<longrightarrow> abResetHeld b AB_RESET_MS t = (False, t + 1500)) \<and>
   (heldFor b t (unat AB_RESET_MS) \<longrightarrow> abResetHeld b AB_RESET_MS t = (True, t + 1500 + 280)) \<and>
   (sameFrom t b b' \<longrightarrow> abResetHeld b' AB_RESET_MS t = abResetHeld b AB_RESET_MS t)"
proof -
  have u: "unat AB_RESET_MS = 1500" by (simp add: AB_RESET_MS_def)
  have a: "abResetHeld b AB_RESET_MS t = (True, t + 1500 + 280)"
    if "\<forall>k\<le>150. bothButtons b (t + 10 * k)"
    using abResetHeld_all_down [OF that] by simp
  have f: "abResetHeld b AB_RESET_MS t = (False, t + 10 * j)"
    if "j \<le> 150 \<and> (\<forall>k<j. bothButtons b (t + 10 * k)) \<and> \<not> bothButtons b (t + 10 * j)"
    using that abResetHeld_first_release [of j b t] by blast
  have s: "abResetHeld b' AB_RESET_MS t = abResetHeld b AB_RESET_MS t"
    if "\<forall>k\<le>150. bothButtons b' (t + 10 * k) = bothButtons b (t + 10 * k)"
    using that by (rule abResetHeld_samples)
  have 1: "fst (abResetHeld b AB_RESET_MS t) \<longleftrightarrow> (\<forall>k\<le>150. bothButtons b (t + 10 * k))"
    by (simp add: abResetHeld_polls)
  have 2: "fst (abResetHeld b AB_RESET_MS t) \<longleftrightarrow> unat AB_RESET_MS \<le> d" if "heldFor b t d"
    unfolding 1 u using that by (rule heldFor_polls)
  have 3: "abResetHeld b AB_RESET_MS t = (False, t + 1500)" if h: "heldFor b t (unat AB_RESET_MS - 1)"
  proof -
    have up: "\<not> bothButtons b (t + 10 * 150)"
      using h by (simp add: heldFor_def u)
    have before: "\<forall>k<150. bothButtons b (t + 10 * k)"
    proof (intro allI impI)
      fix k :: nat
      assume "k < 150"
      then have "t + 10 * k \<le> t + (unat AB_RESET_MS - 1)" by (simp add: u)
      with h show "bothButtons b (t + 10 * k)" by (simp add: heldFor_def)
    qed
    from abResetHeld_first_release [OF _ before up] show ?thesis by simp
  qed
  have 4: "abResetHeld b AB_RESET_MS t = (True, t + 1500 + 280)" if h: "heldFor b t (unat AB_RESET_MS)"
    using heldFor_polls [OF h] by (simp add: abResetHeld_polls u)
  have 5: "abResetHeld b' AB_RESET_MS t = abResetHeld b AB_RESET_MS t" if "sameFrom t b b'"
    using abResetHeld_sameFrom [OF that, of AB_RESET_MS] by simp
  show ?thesis
  proof (intro conjI impI)
  qed (fact a f s 1 2 3 4 5 | erule a f s 2 3 4 5)+
qed

lemma heldFor_holdBoard: "heldFor (holdBoard d) 0 d"
  by (simp add: heldFor_def holdBoard_def bothButtons_def)

lemma heldFor_repressBoard: "heldFor repressBoard 1100 1499"
  by (auto simp: heldFor_def repressBoard_def bothButtons_def)

lemma sameFrom_repressBoard: "sameFrom 1100 repressBoard (holdBoard 2599)"
  by (auto simp: sameFrom_def repressBoard_def holdBoard_def)

lemma repressBoard_first_release:
  "(101 :: nat) \<le> 150 \<and> (\<forall>k<101. bothButtons repressBoard (0 + 10 * k)) \<and>
   \<not> bothButtons repressBoard (0 + 10 * 101)"
  by (simp add: repressBoard_def bothButtons_def)

lemma bounceBoard_samples:
  "\<forall>k\<le>150. bothButtons bounceBoard (0 + 10 * k) = bothButtons (holdBoard 1500) (0 + 10 * k)"
proof (intro allI impI)
  fix k :: nat
  assume "k \<le> 150"
  then have "10 * k \<le> 1500" by simp
  moreover have "10 * k \<le> 1000 \<or> 1010 \<le> 10 * k" by presburger
  ultimately show "bothButtons bounceBoard (0 + 10 * k) = bothButtons (holdBoard 1500) (0 + 10 * k)"
    by (simp add: bounceBoard_def holdBoard_def bothButtons_def)
qed

text \<open>
  The scenarios: a hold of 1499 ms from boot gives false at 1500 and one of 1500 ms
  gives true, at 1780 after the blink. On \<open>repressBoard\<close> the call at boot sees the
  release at its test at 1010 and returns false; the call at the new press at 1100
  counts from zero, so the 1499 ms to 2599 do not suffice although the buttons have been
  down for 2500 ms in all; it returns what it returns on a board whose buttons never
  went up. On \<open>bounceBoard\<close> the release of 9 ms falls between the tests at 1000 and
  1010, and the call at boot returns what it returns for the unbroken hold.
\<close>

theorem abResetHeld_long_press_witness:
  "heldFor (holdBoard 1499) 0 (unat AB_RESET_MS - 1) \<and>
   abResetHeld (holdBoard 1499) AB_RESET_MS 0 = (False, 1500) \<and>
   heldFor (holdBoard 1500) 0 (unat AB_RESET_MS) \<and>
   abResetHeld (holdBoard 1500) AB_RESET_MS 0 = (True, 1780) \<and>
   abResetHeld repressBoard AB_RESET_MS 0 = (False, 1010) \<and>
   heldFor repressBoard 1100 1499 \<and>
   abResetHeld repressBoard AB_RESET_MS 1100 = (False, 2600) \<and>
   sameFrom 1100 repressBoard (holdBoard 2599) \<and>
   abResetHeld (holdBoard 2599) AB_RESET_MS 1100 = abResetHeld repressBoard AB_RESET_MS 1100 \<and>
   abResetHeld bounceBoard AB_RESET_MS 0 = abResetHeld (holdBoard 1500) AB_RESET_MS 0"
proof -
  have u: "unat AB_RESET_MS = 1500" by (simp add: AB_RESET_MS_def)
  have a: "heldFor (holdBoard 1499) 0 (unat AB_RESET_MS - 1)"
    using heldFor_holdBoard [of 1499] by (simp add: u)
  have b: "heldFor (holdBoard 1500) 0 (unat AB_RESET_MS)"
    using heldFor_holdBoard [of 1500] by (simp add: u)
  have c: "heldFor repressBoard 1100 (unat AB_RESET_MS - 1)"
    using heldFor_repressBoard by (simp add: u)
  from abResetHeld_long_press [of "holdBoard 1499" 0 0 "holdBoard 1499" 1499] a
  have r1: "abResetHeld (holdBoard 1499) AB_RESET_MS 0 = (False, 1500)" by simp
  from abResetHeld_long_press [of "holdBoard 1500" 0 0 "holdBoard 1500" 1500] b
  have r2: "abResetHeld (holdBoard 1500) AB_RESET_MS 0 = (True, 1780)" by simp
  from abResetHeld_long_press [of repressBoard 0 101 repressBoard 0] repressBoard_first_release
  have r3: "abResetHeld repressBoard AB_RESET_MS 0 = (False, 1010)" by simp
  from abResetHeld_long_press [of repressBoard 1100 0 "holdBoard 2599" 1499] c
    sameFrom_repressBoard
  have r4: "abResetHeld repressBoard AB_RESET_MS 1100 = (False, 2600)"
    and r5: "abResetHeld (holdBoard 2599) AB_RESET_MS 1100 = abResetHeld repressBoard AB_RESET_MS 1100"
    by simp_all
  from abResetHeld_long_press [of "holdBoard 1500" 0 0 bounceBoard 0] bounceBoard_samples
  have r6: "abResetHeld bounceBoard AB_RESET_MS 0 = abResetHeld (holdBoard 1500) AB_RESET_MS 0"
    by blast
  from a b r1 r2 r3 r4 r5 r6 heldFor_repressBoard sameFrom_repressBoard show ?thesis
    by simp
qed

text \<open>
  The claim as stated, with a hold that is continuous to the millisecond and a timer
  that any release restarts, fails between two tests. On \<open>glitchBoard\<close> the left
  button is up at 1005, so the buttons are not down continuously for 1500 ms from boot,
  and yet the call at boot returns true at 1500. On \<open>bounceBoard\<close> the left button is
  released at 1001 and pressed again at 1010; the timer is not restarted, the call at
  boot returns true at 1500, which is 490 ms after the new press.
\<close>

theorem abResetHeld_long_press_counterexample:
  "\<not> bothButtons glitchBoard 1005 \<and>
   abResetHeld glitchBoard AB_RESET_MS 0 = (True, 1780) \<and>
   bothButtons bounceBoard 1000 \<and> \<not> bothButtons bounceBoard 1001 \<and>
   \<not> bothButtons bounceBoard 1009 \<and> bothButtons bounceBoard 1010 \<and>
   abResetHeld bounceBoard AB_RESET_MS 0 = (True, 1780)"
proof -
  have g: "\<forall>k\<le>150. bothButtons glitchBoard (0 + 10 * k)"
  proof (intro allI impI)
    fix k :: nat
    have "10 * k \<noteq> 1005" by presburger
    then show "bothButtons glitchBoard (0 + 10 * k)"
      by (simp add: glitchBoard_def bothButtons_def)
  qed
  have h: "\<forall>k\<le>150. bothButtons bounceBoard (0 + 10 * k)"
  proof (intro allI impI)
    fix k :: nat
    have "10 * k \<le> 1000 \<or> 1010 \<le> 10 * k" by presburger
    then show "bothButtons bounceBoard (0 + 10 * k)"
      by (simp add: bounceBoard_def bothButtons_def)
  qed
  have "abResetHeld glitchBoard AB_RESET_MS 0 = (True, 1780)"
    using abResetHeld_all_down [OF g] by simp
  moreover have "abResetHeld bounceBoard AB_RESET_MS 0 = (True, 1780)"
    using abResetHeld_all_down [OF h] by simp
  ultimately show ?thesis
    by (simp add: glitchBoard_def bounceBoard_def bothButtons_def)
qed

section \<open>Shake magnitude and its deadband\<close>

lemma gex_mg3_cases:
  "gex_mg3 ax ay az =
     (if \<bar>sqrt (ax * ax + ay * ay + az * az) - 9.81\<bar> < 0.05 then 0
      else \<bar>sqrt (ax * ax + ay * ay + az * az) - 9.81\<bar>)"
  by (simp add: gex_mg3_def Let_def)

lemma gex_mg2_onto:
  assumes "- 9.81 \<le> x"
  shows "gex_mg2 0 0 (x + 9.81) = x"
  using assms by (simp add: gex_mg2_def)

text \<open>
  Claim C6, as amended. Only \<open>gex()\<close> of cp_minigames_3, the Euclidean norm, has the
  deadband: it returns exactly 0 when the norm is within 0.05 of 9.81, and otherwise a
  value of at least 0.05, never a negative one. \<open>gex()\<close> of cp_minigames_2, the sum of
  absolute values, returns the difference to 9.81 as it is: every value from \<open>-9.81\<close>
  up is the result for some reading, the negative ones and those below 0.05 included.
\<close>

theorem gex_deadband:
  "(\<bar>sqrt (ax * ax + ay * ay + az * az) - 9.81\<bar> < 0.05 \<longrightarrow> gex_mg3 ax ay az = 0) \<and>
   (gex_mg3 ax ay az = 0 \<or> 0.05 \<le> gex_mg3 ax ay az) \<and>
   (0.05 \<le> \<bar>sqrt (ax * ax + ay * ay + az * az) - 9.81\<bar> \<longrightarrow>
      gex_mg3 ax ay az = \<bar>sqrt (ax * ax + ay * ay + az * az) - 9.81\<bar> \<and>
      0.05 \<le> gex_mg3 ax ay az) \<and>
   0 \<le> gex_mg3 ax ay az \<and>
   gex_mg2 ax ay az = \<bar>ax\<bar> + \<bar>ay\<bar> + \<bar>az\<bar> - 9.81 \<and>
   (- 9.81 \<le> x \<longrightarrow> gex_mg2 0 0 (x + 9.81) = x)"
proof -
  have "\<bar>sqrt (ax * ax + ay * ay + az * az) - 9.81\<bar> < 0.05 \<longrightarrow> gex_mg3 ax ay az = 0"
    by (simp add: gex_mg3_cases)
  moreover have "gex_mg3 ax ay az = 0 \<or> 0.05 \<le> gex_mg3 ax ay az"
    by (simp add: gex_mg3_cases)
  moreover have "0.05 \<le> \<bar>sqrt (ax * ax + ay * ay + az * az) - 9.81\<bar> \<longrightarrow>
      gex_mg3 ax ay az = \<bar>sqrt (ax * ax + ay * ay + az * az) - 9.81\<bar> \<and>
      0.05 \<le> gex_mg3 ax ay az"
    by (simp add: gex_mg3_cases)
  moreover have "0 \<le> gex_mg3 ax ay az"
    by (simp add: gex_mg3_cases)
  moreover have "gex_mg2 ax ay az = \<bar>ax\<bar> + \<bar>ay\<bar> + \<bar>az\<bar> - 9.81"
    by (simp add: gex_mg2_def)
  moreover have "- 9.81 \<le> x \<longrightarrow> gex_mg2 0 0 (x + 9.81) = x"
    using gex_mg2_onto by blast
  ultimately show ?thesis by blast
qed

lemma sqrt_98: "sqrt (0 * 0 + 0 * 0 + 9.8 * 9.8) = (9.8 :: real)"
  using real_sqrt_abs2 [of "9.8"] by simp

lemma sqrt_1081: "sqrt (0 * 0 + 0 * 0 + 10.81 * 10.81) = (10.81 :: real)"
  using real_sqrt_abs2 [of "10.81"] by simp

theorem gex_deadband_witness:
  "\<bar>sqrt (0 * 0 + 0 * 0 + 9.8 * 9.8) - 9.81\<bar> < (0.05 :: real) \<and> gex_mg3 0 0 9.8 = 0 \<and>
   - 9.81 \<le> (- 0.01 :: real) \<and> gex_mg2 0 0 9.8 = - 0.01 \<and>
   (0.05 :: real) \<le> \<bar>sqrt (0 * 0 + 0 * 0 + 10.81 * 10.81) - 9.81\<bar> \<and> gex_mg3 0 0 10.81 = 1"
proof -
  have e: "(0.05 :: real) \<le> \<bar>sqrt (0 * 0 + 0 * 0 + 10.81 * 10.81) - 9.81\<bar>"
    unfolding sqrt_1081 by simp
  from gex_deadband [of 0 0 "10.81" 0] e
  have "gex_mg3 0 0 10.81 = \<bar>sqrt (0 * 0 + 0 * 0 + 10.81 * 10.81) - 9.81\<bar>" by blast
  then have f: "gex_mg3 0 0 10.81 = 1"
    unfolding sqrt_1081 by simp
  have a: "\<bar>sqrt (0 * 0 + 0 * 0 + 9.8 * 9.8) - 9.81\<bar> < (0.05 :: real)"
    unfolding sqrt_98 by simp
  have b: "- 9.81 \<le> (- 0.01 :: real)" by simp
  note th = gex_deadband [of 0 0 "9.8" "- 0.01"]
  from th a have c: "gex_mg3 0 0 9.8 = 0" by blast
  from th b have "gex_mg2 0 0 (- 0.01 + 9.81) = - 0.01" by blast
  then have d: "gex_mg2 0 0 9.8 = - 0.01" by simp
  from a b c d e f show ?thesis by blast
qed

text \<open>
  The claim as stated fails for the sum of absolute values: at rest with the board flat
  and a reading of 9.8 on the z axis, the excess over 1 g is 0.01 in magnitude, below the
  deadband, and \<open>gex()\<close> of cp_minigames_2 returns \<open>-0.01\<close>, not 0.
\<close>

theorem gex_deadband_counterexample:
  "\<bar>\<bar>0\<bar> + \<bar>0\<bar> + \<bar>9.8\<bar> - (9.81 :: real)\<bar> < 0.05 \<and> gex_mg2 0 0 9.8 \<noteq> 0 \<and> gex_mg2 0 0 9.8 < 0"
  by (simp add: gex_mg2_def)

section \<open>Motion energy stays within its clamp\<close>

lemma shakerEnergy_range: "0 \<le> shakerEnergy e g \<and> shakerEnergy e g \<le> 2"
  by (simp add: shakerEnergy_def Let_def)

lemma twinkleEnergy_range: "0 \<le> twinkleEnergy e r g \<and> twinkleEnergy e r g \<le> 2"
  by (simp add: twinkleEnergy_def Let_def)

lemma shakerMeter_le: "unat (shakerMeter e) \<le> 10"
proof -
  define c where "c = constrain (int_of_float (e * 6.0 + 0.5)) 0 10"
  have c: "0 \<le> c" "c \<le> 10"
    by (simp_all add: c_def constrain_def)
  have "uint (word_of_int c :: uint8_t) = c mod 256"
    by (simp add: uint_word_of_int)
  also have "\<dots> = c"
    using c by simp
  finally have "unat (word_of_int c :: uint8_t) = nat c"
    by (simp only: unat_eq_nat_uint)
  then show ?thesis
    unfolding shakerMeter_def c_def [symmetric] using c by simp
qed

lemma runShaker_trace_range:
  "list_all (\<lambda>(e, n). 0 \<le> e \<and> e \<le> 2 \<and> unat n \<le> 10) (runShaker_trace e0 samples)"
proof (induction samples arbitrary: e0)
  case Nil
  show ?case by simp
next
  case (Cons s samples)
  obtain ax ay az where s: "s = (ax, ay, az)" by (cases s)
  show ?case
    using Cons.IH shakerEnergy_range [of e0 "gex_mg3 ax ay az"] shakerMeter_le
    by (simp add: s Let_def)
qed

lemma runTwinkle_trace_range:
  "list_all (\<lambda>e. 0 \<le> e \<and> e \<le> 2) (runTwinkle_trace e0 samples)"
proof (induction samples arbitrary: e0)
  case Nil
  show ?case by simp
next
  case (Cons s samples)
  obtain r ax ay az where s: "s = (r, ax, ay, az)" by (cases s)
  show ?case
    using Cons.IH twinkleEnergy_range [of e0 r "gex_mg2 ax ay az"]
    by (simp add: s Let_def)
qed

text \<open>
  Claim C10. After the integration and decay of every pass, the motion energy of the
  Shaker Challenge and of Twinkle lies in \<open>[0, 2]\<close>, whatever the energy before and
  whatever the accelerometer reads, and the number of lit pixels of the Shaker meter is
  at most 10; so it is along every run of either loop.
\<close>

theorem motion_energy_clamped:
  "0 \<le> shakerEnergy e ge \<and> shakerEnergy e ge \<le> 2 \<and>
   unat (shakerMeter (shakerEnergy e ge)) \<le> 10 \<and>
   0 \<le> twinkleEnergy e reset ge \<and> twinkleEnergy e reset ge \<le> 2 \<and>
   list_all (\<lambda>(e, n). 0 \<le> e \<and> e \<le> 2 \<and> unat n \<le> 10) (runShakerForever samples) \<and>
   list_all (\<lambda>e. 0 \<le> e \<and> e \<le> 2) (runTwinkleForever tsamples)"
  using shakerEnergy_range [of e ge] twinkleEnergy_range [of e reset ge]
    shakerMeter_le [of "shakerEnergy e ge"]
    runShaker_trace_range [of 0 samples] runTwinkle_trace_range [of 0 tsamples]
  by (simp add: runShakerForever_def runTwinkleForever_def)

section \<open>Spinner: the unwrapped angle difference\<close>

lemma unwrap_cases:
  "unwrap d = (if d > pi then d - 2 * pi else if d < - pi then d + 2 * pi else d)"
proof -
  have "\<not> d - 2 * pi < - pi" if "d > pi"
    using that by simp
  then show ?thesis
    by (simp add: unwrap_def Let_def)
qed

lemma unwrap_range:
  assumes "- pi < a" "a \<le> pi" "- pi < b" "b \<le> pi"
  shows "- pi \<le> unwrap (a - b) \<and> unwrap (a - b) \<le> pi"
  using assms by (simp add: unwrap_cases)

text \<open>
  Claim C2, as amended. For two tilt angles in \<open>(-pi, pi]\<close> the unwrapped difference
  lies in the closed interval \<open>[-pi, pi]\<close>, so its magnitude never exceeds \<open>pi\<close>, and
  it is the raw difference moved by one turn at most.
\<close>

theorem unwrap_delta_bounded:
  "- pi < a \<and> a \<le> pi \<and> - pi < b \<and> b \<le> pi \<longrightarrow>
     - pi \<le> unwrap (a - b) \<and> unwrap (a - b) \<le> pi \<and> \<not> \<bar>unwrap (a - b)\<bar> > pi \<and>
     (unwrap (a - b) = a - b \<or> unwrap (a - b) = a - b - 2 * pi \<or> unwrap (a - b) = a - b + 2 * pi)"
proof
  assume r: "- pi < a \<and> a \<le> pi \<and> - pi < b \<and> b \<le> pi"
  then have b: "- pi \<le> unwrap (a - b) \<and> unwrap (a - b) \<le> pi"
    by (intro unwrap_range) simp_all
  then have "\<not> \<bar>unwrap (a - b)\<bar> > pi" by (simp add: abs_le_iff not_less)
  moreover have "unwrap (a - b) = a - b \<or> unwrap (a - b) = a - b - 2 * pi
      \<or> unwrap (a - b) = a - b + 2 * pi"
    by (simp add: unwrap_cases)
  ultimately show "- pi \<le> unwrap (a - b) \<and> unwrap (a - b) \<le> pi \<and> \<not> \<bar>unwrap (a - b)\<bar> > pi \<and>
     (unwrap (a - b) = a - b \<or> unwrap (a - b) = a - b - 2 * pi \<or> unwrap (a - b) = a - b + 2 * pi)"
    using b by blast
qed

lemma pi_between: "3 \<le> pi" "pi < 4"
proof -
  have "sin (pi / 6) \<le> pi / 6" by (rule sin_x_le_x) simp
  then show "3 \<le> pi" by (simp add: sin_30)
  show "pi < 4" by (rule pi_less_4)
qed

theorem unwrap_delta_bounded_witness:
  "- pi < 2 \<and> 2 \<le> pi \<and> - pi < - 2 \<and> - 2 \<le> pi \<and>
   unwrap (2 - (- 2)) = 4 - 2 * pi \<and>
   - pi \<le> unwrap (2 - (- 2)) \<and> unwrap (2 - (- 2)) \<le> pi"
proof -
  have r: "- pi < 2 \<and> 2 \<le> pi \<and> - pi < - 2 \<and> - 2 \<le> pi"
    using pi_between by simp
  have u: "unwrap (2 - (- 2)) = 4 - 2 * pi"
    using pi_between by (simp add: unwrap_cases)
  from unwrap_delta_bounded [of 2 "- 2"] r
  have "- pi \<le> unwrap (2 - (- 2)) \<and> unwrap (2 - (- 2)) \<le> pi" by blast
  with r u show ?thesis by blast
qed

text \<open>
  The half-open interval of the claim is missed at one end: from the angle \<open>pi\<close> to the
  angle 0 (both are results of \<open>atan2f\<close>) the difference is \<open>-pi\<close>, which neither
  test of the unwrap changes.
\<close>

theorem unwrap_delta_counterexample:
  "- pi < 0 \<and> (0 :: real) \<le> pi \<and> - pi < pi \<and> pi \<le> pi \<and>
   unwrap (0 - pi) = - pi \<and> \<not> (- pi < unwrap (0 - pi) \<and> unwrap (0 - pi) \<le> pi)"
  by (simp add: unwrap_cases)

section \<open>Spinner: one step of the physics\<close>

lemma wrapAbove_le: "wrapAbove t \<le> pi"
  by (induction t rule: wrapAbove.induct) (subst wrapAbove.simps, simp)

lemma wrapBelow_ge: "- pi \<le> wrapBelow t"
  by (induction t rule: wrapBelow.induct) (subst wrapBelow.simps, simp)

lemma wrapBelow_le: "t \<le> pi \<Longrightarrow> wrapBelow t \<le> pi"
proof (induction t rule: wrapBelow.induct)
  case (1 t)
  show ?case
  proof (cases "t < - pi")
    case True
    then have "t + 2 * pi \<le> pi" by simp
    with 1 True show ?thesis by (subst wrapBelow.simps) simp
  next
    case False
    with 1 show ?thesis by (subst wrapBelow.simps) simp
  qed
qed

lemma wrapAbove_turns: "\<exists>k :: int. wrapAbove t = t + 2 * pi * of_int k"
proof (induction t rule: wrapAbove.induct)
  case (1 t)
  show ?case
  proof (cases "t > pi")
    case True
    with 1 obtain k :: int where "wrapAbove (t - 2 * pi) = t - 2 * pi + 2 * pi * of_int k"
      by blast
    then have "wrapAbove t = t + 2 * pi * of_int (k - 1)"
      using True by (subst wrapAbove.simps) (simp add: algebra_simps)
    then show ?thesis by blast
  next
    case False
    then have "wrapAbove t = t + 2 * pi * of_int 0"
      by (subst wrapAbove.simps) simp
    then show ?thesis by blast
  qed
qed

lemma wrapBelow_turns: "\<exists>k :: int. wrapBelow t = t + 2 * pi * of_int k"
proof (induction t rule: wrapBelow.induct)
  case (1 t)
  show ?case
  proof (cases "t < - pi")
    case True
    with 1 obtain k :: int where "wrapBelow (t + 2 * pi) = t + 2 * pi + 2 * pi * of_int k"
      by blast
    then have "wrapBelow t = t + 2 * pi * of_int (k + 1)"
      using True by (subst wrapBelow.simps) (simp add: algebra_simps)
    then show ?thesis by blast
  next
    case False
    then have "wrapBelow t = t + 2 * pi * of_int 0"
      by (subst wrapBelow.simps) simp
    then show ?thesis by blast
  qed
qed

lemma wrap_turns: "\<exists>k :: int. wrapBelow (wrapAbove t) = t + 2 * pi * of_int k"
proof -
  obtain j :: int where j: "wrapAbove t = t + 2 * pi * of_int j"
    using wrapAbove_turns by blast
  obtain k :: int where k: "wrapBelow (wrapAbove t) = wrapAbove t + 2 * pi * of_int k"
    using wrapBelow_turns by blast
  from k have "wrapBelow (wrapAbove t) = t + 2 * pi * of_int j + 2 * pi * of_int k"
    by (simp only: j)
  then have "wrapBelow (wrapAbove t) = t + 2 * pi * of_int (j + k)"
    by (simp add: algebra_simps)
  then show ?thesis by blast
qed

lemma wrap_id: "- pi \<le> t \<Longrightarrow> t \<le> pi \<Longrightarrow> wrapBelow (wrapAbove t) = t"
  by (subst wrapAbove.simps, subst wrapBelow.simps) simp

lemma pacing: "word_of_int (int_of_float (DT_S * 1000.0)) = (25 :: ulong)"
  by (simp add: int_of_float_def DT_S_def)

text \<open>
  A step that is taken, written out: the new \<open>omega\<close> is a clamped value, and the new
  \<open>theta\<close> is the old one plus that \<open>omega\<close> times \<open>dt\<close>, wrapped.
\<close>

lemma spinnerStep_taken:
  assumes "\<not> now - lastStep s < 25"
  shows "\<exists>x. omega (spinnerStep s now ang)
                = (if (if x > OMEGA_MAX then OMEGA_MAX else x) < - OMEGA_MAX then - OMEGA_MAX
                   else (if x > OMEGA_MAX then OMEGA_MAX else x)) \<and>
             theta (spinnerStep s now ang)
                = wrapBelow (wrapAbove (theta s + omega (spinnerStep s now ang) * stepDt s now))"
proof -
  define angVel where "angVel = unwrap (ang - lastAngle s) / stepDt s now"
  define om1 where "om1 = omega s + KICK_GAIN * angVel"
  define om2 where "om2 = (if \<bar>angVel\<bar> > FLICK_THRESH
                  then om1 + (if angVel > 0 then FLICK_BONUS else - FLICK_BONUS) else om1)"
  define om3 where "om3 = (if posOnly s \<and> om2 < 0 then om2 * (- 0.6) else om2)"
  define om4 where "om4 = om3 * (DRAG powr (stepDt s now / DT_S))"
  define om5 where "om5 = (if om4 > OMEGA_MAX then OMEGA_MAX else om4)"
  define om6 where "om6 = (if om5 < - OMEGA_MAX then - OMEGA_MAX else om5)"
  have st: "spinnerStep s now ang =
      s\<lparr>theta := wrapBelow (wrapAbove (theta s + om6 * stepDt s now)), omega := om6,
        lastAngle := ang, lastStep := now\<rparr>"
    unfolding spinnerStep_def pacing Let_def om6_def om5_def om4_def om3_def om2_def om1_def
      angVel_def
    using assms by simp
  have "omega (spinnerStep s now ang)
                = (if (if om4 > OMEGA_MAX then OMEGA_MAX else om4) < - OMEGA_MAX then - OMEGA_MAX
                   else (if om4 > OMEGA_MAX then OMEGA_MAX else om4)) \<and>
             theta (spinnerStep s now ang)
                = wrapBelow (wrapAbove (theta s + omega (spinnerStep s now ang) * stepDt s now))"
    unfolding st by (simp add: om6_def om5_def)
  then show ?thesis by (rule exI)
qed

text \<open>
  Claim C5, as amended. After every step of the integrator that is taken, whatever the
  measured angle, the elapsed time and the state before: \<open>omega\<close> lies in
  \<open>[-OMEGA_MAX, OMEGA_MAX]\<close>, \<open>theta\<close> is the old \<open>theta\<close> plus this clamped
  \<open>omega\<close> times \<open>dt\<close>, moved by whole turns into the closed interval \<open>[-pi, pi]\<close>.
\<close>

theorem spinner_step_clamped_wrapped:
  "\<not> now - lastStep s < 25 \<longrightarrow>
     - OMEGA_MAX \<le> omega (spinnerStep s now ang) \<and> omega (spinnerStep s now ang) \<le> OMEGA_MAX \<and>
     theta (spinnerStep s now ang)
        = wrapBelow (wrapAbove (theta s + omega (spinnerStep s now ang) * stepDt s now)) \<and>
     (\<exists>k :: int. theta (spinnerStep s now ang)
        = theta s + omega (spinnerStep s now ang) * stepDt s now + 2 * pi * of_int k) \<and>
     - pi \<le> theta (spinnerStep s now ang) \<and> theta (spinnerStep s now ang) \<le> pi"
proof
  assume taken: "\<not> now - lastStep s < 25"
  define s' where "s' = spinnerStep s now ang"
  from spinnerStep_taken [OF taken, of ang] obtain x where
    om: "omega s' = (if (if x > OMEGA_MAX then OMEGA_MAX else x) < - OMEGA_MAX then - OMEGA_MAX
                     else (if x > OMEGA_MAX then OMEGA_MAX else x))"
    and th: "theta s' = wrapBelow (wrapAbove (theta s + omega s' * stepDt s now))"
    unfolding s'_def by blast
  have 1: "- OMEGA_MAX \<le> omega s' \<and> omega s' \<le> OMEGA_MAX"
    unfolding om by (simp add: OMEGA_MAX_def)
  have 2: "\<exists>k :: int. theta s' = theta s + omega s' * stepDt s now + 2 * pi * of_int k"
    unfolding th by (rule wrap_turns)
  have 3: "- pi \<le> theta s' \<and> theta s' \<le> pi"
    unfolding th by (simp add: wrapBelow_ge wrapBelow_le wrapAbove_le)
  from 1 th 2 3
  show "- OMEGA_MAX \<le> omega (spinnerStep s now ang) \<and> omega (spinnerStep s now ang) \<le> OMEGA_MAX \<and>
     theta (spinnerStep s now ang)
        = wrapBelow (wrapAbove (theta s + omega (spinnerStep s now ang) * stepDt s now)) \<and>
     (\<exists>k :: int. theta (spinnerStep s now ang)
        = theta s + omega (spinnerStep s now ang) * stepDt s now + 2 * pi * of_int k) \<and>
     - pi \<le> theta (spinnerStep s now ang) \<and> theta (spinnerStep s now ang) \<le> pi"
    unfolding s'_def by blast
qed

text \<open>
  Two starting states for the scenarios, both at rest in angle: one spinning at
  10 rad/s, one standing at \<open>theta = 0.55 - pi\<close>.
\<close>

lemma flick_step:
  "spinnerStep \<lparr>theta = 0.55 - pi, omega = 0, lastAngle = 0, lastStep = 0, posOnly = False\<rparr> 25 (- 1)
     = \<lparr>theta = - pi, omega = - 22, lastAngle = - 1, lastStep = 25, posOnly = False\<rparr>"
proof -
  have u: "unwrap (- 1) = - 1"
    using pi_between by (simp add: unwrap_cases)
  show ?thesis
    unfolding spinnerStep_def pacing stepDt_def
    by (simp add: Let_def u wrap_id DT_S_def DRAG_def KICK_GAIN_def FLICK_THRESH_def
        FLICK_BONUS_def OMEGA_MAX_def)
qed

lemma coast_step:
  "spinnerStep \<lparr>theta = 0, omega = 10, lastAngle = 0, lastStep = 0, posOnly = False\<rparr> 25 0
     = \<lparr>theta = 0.24625, omega = 9.85, lastAngle = 0, lastStep = 25, posOnly = False\<rparr>"
proof -
  have u: "unwrap 0 = 0"
    by (simp add: unwrap_cases)
  have "- pi \<le> 197 / 800" "197 / 800 \<le> pi"
    using pi_between by simp_all
  then have w: "wrapBelow (wrapAbove (197 / 800)) = 197 / 800"
    by (rule wrap_id)
  show ?thesis
    unfolding spinnerStep_def pacing stepDt_def
    by (simp add: Let_def u w DT_S_def DRAG_def KICK_GAIN_def FLICK_THRESH_def FLICK_BONUS_def
        OMEGA_MAX_def)
qed

theorem spinner_step_clamped_wrapped_witness:
  "\<not> (25 :: ulong) - lastStep \<lparr>theta = 0, omega = 10, lastAngle = 0, lastStep = 0, posOnly = False\<rparr> < 25 \<and>
   spinnerStep \<lparr>theta = 0, omega = 10, lastAngle = 0, lastStep = 0, posOnly = False\<rparr> 25 0
     = \<lparr>theta = 0.24625, omega = 9.85, lastAngle = 0, lastStep = 25, posOnly = False\<rparr> \<and>
   - OMEGA_MAX \<le> (9.85 :: real) \<and> 9.85 \<le> OMEGA_MAX \<and> - pi \<le> 0.24625 \<and> 0.24625 \<le> pi"
proof -
  have t: "\<not> (25 :: ulong) - lastStep \<lparr>theta = 0, omega = 10, lastAngle = 0, lastStep = 0, posOnly = False\<rparr> < 25"
    by simp
  from spinner_step_clamped_wrapped
    [of 25 "\<lparr>theta = 0, omega = 10, lastAngle = 0, lastStep = 0, posOnly = False\<rparr>" 0] t
  have "- OMEGA_MAX \<le> (9.85 :: real) \<and> 9.85 \<le> OMEGA_MAX \<and> - pi \<le> 0.24625 \<and> 0.24625 \<le> pi"
    unfolding coast_step by simp
  with t coast_step show ?thesis by blast
qed

text \<open>
  The half-open interval of the claim is missed at one end here too: a flick that drives
  \<open>omega\<close> into the clamp at \<open>-OMEGA_MAX\<close> takes \<open>theta\<close> from \<open>0.55 - pi\<close>
  to \<open>-pi\<close> in 25 ms, and \<open>while (theta < -pi)\<close> leaves \<open>-pi\<close> alone.
\<close>

theorem spinner_step_counterexample:
  "- pi < theta \<lparr>theta = 0.55 - pi, omega = 0, lastAngle = 0, lastStep = 0, posOnly = False\<rparr> \<and>
   theta \<lparr>theta = 0.55 - pi, omega = 0, lastAngle = 0, lastStep = 0, posOnly = False\<rparr> \<le> pi \<and>
   theta (spinnerStep \<lparr>theta = 0.55 - pi, omega = 0, lastAngle = 0, lastStep = 0, posOnly = False\<rparr>
            25 (- 1)) = - pi \<and>
   \<not> (- pi < theta (spinnerStep
            \<lparr>theta = 0.55 - pi, omega = 0, lastAngle = 0, lastStep = 0, posOnly = False\<rparr> 25 (- 1)))"
  unfolding flick_step using pi_between by simp

text \<open>
  Claim C8. One step with \<open>omega = 10\<close>, the measured angle unchanged (no angular
  velocity, no flick) and 25 ms elapsed, so that \<open>dt\<close> equals \<open>DT_S\<close>: the drag factor
  is \<open>DRAG\<close> to the power \<open>dt / DT_S = 1\<close>, and \<open>omega\<close> becomes 9.85, whatever
  \<open>theta\<close>, the angle, the time of the last step and the direction lock are.
\<close>

theorem spinner_drag_one_step:
  "omega (spinnerStep \<lparr>theta = th, omega = 10, lastAngle = a, lastStep = t, posOnly = lock\<rparr>
            (t + 25) a) = 9.85 \<and>
   stepDt \<lparr>theta = th, omega = 10, lastAngle = a, lastStep = t, posOnly = lock\<rparr> (t + 25) = DT_S \<and>
   DRAG powr (DT_S / DT_S) = 0.985"
  unfolding spinnerStep_def pacing stepDt_def
  by (simp add: Let_def unwrap_cases DT_S_def DRAG_def KICK_GAIN_def FLICK_THRESH_def
      OMEGA_MAX_def)

section \<open>Single precision: what is used of it\<close>

text \<open>
  The rounding agrees with the floats the compiler produces for three literals:
  \<open>0.93f\<close> is \<open>0x3F6E147B\<close>, \<open>0.1f\<close> is \<open>0x3DCCCCCD\<close> and \<open>(float)M_PI\<close> is
  \<open>0x40490FDB\<close>.
\<close>

lemma f32_literals:
  "f32 0.93 = 15602811 / 2 ^ 24" "f32 0.1 = 13421773 / 2 ^ 27"
  "f32 3.14159265358979323846 = 13176795 / 2 ^ 22"
  unfolding f32_def bexp_def rhe_def pow2_def Let_def
  by (simp_all add: compute_floorlog)

lemma DECAY_value: "DECAY = 15602811 / 16777216"
  unfolding DECAY_def f32_def bexp_def rhe_def pow2_def Let_def
  by (simp add: compute_floorlog)


lemma rhe_ge_floor: "\<lfloor>x\<rfloor> \<le> rhe x"
  by (simp add: rhe_def Let_def)

lemma rhe_le_ceiling: "rhe x \<le> \<lceil>x\<rceil>"
proof (cases "x = of_int \<lfloor>x\<rfloor>")
  case True
  then have "x - of_int \<lfloor>x\<rfloor> = 0" by simp
  then have "rhe x = \<lfloor>x\<rfloor>" by (simp add: rhe_def Let_def)
  then show ?thesis by simp
next
  case False
  then have "\<lceil>x\<rceil> = \<lfloor>x\<rfloor> + 1"
    by (metis ceiling_altdef)
  moreover have "rhe x \<le> \<lfloor>x\<rfloor> + 1" by (simp add: rhe_def Let_def)
  ultimately show ?thesis by simp
qed

lemma rhe_le_int:
  assumes "x \<le> of_int m"
  shows "rhe x \<le> m"
proof -
  from assms have "\<lceil>x\<rceil> \<le> m" by (simp only: ceiling_le_iff)
  with rhe_le_ceiling [of x] show ?thesis by (rule order_trans)
qed

lemma rhe_ge_int:
  assumes "of_int m \<le> x"
  shows "m \<le> rhe x"
proof -
  from assms have "m \<le> \<lfloor>x\<rfloor>" by (simp only: le_floor_iff)
  then show ?thesis using rhe_ge_floor [of x] by (rule order_trans)
qed

lemma bexp_le_23:
  assumes "0 < x" "x < 2 ^ 24"
  shows "bexp x \<le> 23"
proof (cases "1 \<le> x")
  case True
  have "real (nat \<lfloor>x\<rfloor>) \<le> x" using assms(1) by simp
  with assms(2) have "real (nat \<lfloor>x\<rfloor>) < 2 ^ 24" by linarith
  then have "nat \<lfloor>x\<rfloor> < 2 ^ 24"
    by (metis of_nat_less_iff of_nat_numeral of_nat_power)
  then have "floorlog 2 (nat \<lfloor>x\<rfloor>) \<le> 24"
    by (intro floorlog_leI) simp_all
  with True show ?thesis by (simp add: bexp_def)
next
  case False
  then show ?thesis by (simp add: bexp_def)
qed

lemma f32_pos_form:
  assumes "0 < x" "x < 2 ^ 24"
  shows "f32 x = of_int (rhe (x * 2 ^ nat (23 - bexp x))) / 2 ^ nat (23 - bexp x)"
proof -
  have e: "bexp x - 23 \<le> 0" using bexp_le_23 [OF assms] by simp
  have u: "pow2 (bexp x - 23) = 1 / 2 ^ nat (23 - bexp x)"
  proof (cases "bexp x - 23 = 0")
    case True
    then show ?thesis by (simp add: pow2_def)
  next
    case False
    with e have "bexp x - 23 < 0" by simp
    moreover have "nat (- (bexp x - 23)) = nat (23 - bexp x)" by simp
    ultimately show ?thesis by (simp add: pow2_def)
  qed
  show ?thesis using assms(1) by (simp add: f32_def Let_def u)
qed

lemma f32_le_int:
  assumes "0 < x" "x \<le> of_int n" "n < 2 ^ 24"
  shows "f32 x \<le> of_int n"
proof -
  define N :: nat where "N = 2 ^ nat (23 - bexp x)"
  have N: "0 < N" by (simp add: N_def)
  have "(of_int n :: real) < of_int (2 ^ 24)"
    using assms(3) by (simp only: of_int_less_iff)
  with assms(2) have x24: "x < 2 ^ 24" by simp
  have f: "f32 x = of_int (rhe (x * real N)) / real N"
    using f32_pos_form [OF assms(1) x24] by (simp add: N_def)
  have "x * real N \<le> of_int (n * int N)"
    using assms(2) N by simp
  then have "rhe (x * real N) \<le> n * int N" by (rule rhe_le_int)
  then have "of_int (rhe (x * real N)) \<le> (of_int (n * int N) :: real)"
    by (simp only: of_int_le_iff)
  then have "of_int (rhe (x * real N)) / real N \<le> of_int n"
    using N by (simp add: field_simps)
  with f show ?thesis by simp
qed

lemma f32_ge_int:
  assumes "0 < x" "of_int n \<le> x" "x < 2 ^ 24"
  shows "of_int n \<le> f32 x"
proof -
  define N :: nat where "N = 2 ^ nat (23 - bexp x)"
  have N: "0 < N" by (simp add: N_def)
  have f: "f32 x = of_int (rhe (x * real N)) / real N"
    using f32_pos_form [OF assms(1,3)] by (simp add: N_def)
  have "of_int (n * int N) \<le> x * real N"
    using assms(2) N by simp
  then have "n * int N \<le> rhe (x * real N)" by (rule rhe_ge_int)
  then have "(of_int (n * int N) :: real) \<le> of_int (rhe (x * real N))"
    by (simp only: of_int_le_iff)
  then have "of_int n \<le> of_int (rhe (x * real N)) / real N"
    using N by (simp add: field_simps)
  with f show ?thesis by simp
qed


section \<open>Whack-a-Mole: the window stays between its bounds\<close>

lemma uint16_small:
  assumes "0 \<le> k" "k < 65536"
  shows "uint (word_of_int k :: uint16_t) = k"
  using assms by (simp add: uint_word_of_int)

lemma inWindow_iff: "inWindow w \<longleftrightarrow> 250 \<le> uint w \<and> uint w \<le> 900"
  unfolding inWindow_def MIN_WINDOW_MS_def START_WINDOW_MS_def word_le_def by simp

lemma real_unat_uint: "n = uint w \<Longrightarrow> real (unat w) = of_int n"
  by simp

lemma windowHit_inWindow:
  assumes "inWindow w"
  shows "inWindow (windowHit w)"
proof -
  define n where "n = uint w"
  from assms have w: "250 \<le> n" "n \<le> 900" by (simp_all add: inWindow_iff n_def)
  define p where "p = real (unat w) * DECAY"
  have pu: "p = of_int n * DECAY" by (simp only: p_def real_unat_uint [OF n_def])
  have p0: "0 < p" using w by (simp add: pu DECAY_value)
  have ple: "p \<le> of_int n" using w by (simp add: pu DECAY_value)
  have "n < 2 ^ 24" using w by simp
  with p0 ple have hi: "f32 p \<le> of_int n" by (rule f32_le_int)
  have "p < 2 ^ 24" using ple w by simp
  with p0 have lo: "of_int 0 \<le> f32 p" by (intro f32_ge_int) simp_all
  define k where "k = int_of_float (f32 p)"
  have kf: "k = \<lfloor>f32 p\<rfloor>" using lo by (simp add: k_def int_of_float_def)
  have k: "0 \<le> k" "k \<le> 900"
  proof -
    show "0 \<le> k" using lo by (simp add: kf)
    have "\<lfloor>f32 p\<rfloor> \<le> \<lfloor>of_int n :: real\<rfloor>" using hi by (rule floor_mono)
    then have "\<lfloor>f32 p\<rfloor> \<le> n" by simp
    with w show "k \<le> 900" unfolding kf by linarith
  qed
  then have "uint (uint16_of_float (f32 p)) = k"
    by (simp add: uint16_of_float_def k_def [symmetric] uint16_small)
  then have "windowHit w = word_of_int (max 250 k)"
    unfolding windowHit_def p_def [symmetric] MIN_WINDOW_MS_def by simp
  moreover have "uint (word_of_int (max 250 k) :: uint16_t) = max 250 k"
    using k by (intro uint16_small) simp_all
  ultimately show ?thesis using k by (simp add: inWindow_iff)
qed

lemma windowMiss_inWindow:
  assumes "inWindow w"
  shows "inWindow (windowMiss w)"
proof -
  define n where "n = uint w"
  from assms have w: "250 \<le> n" "n \<le> 900" by (simp_all add: inWindow_iff n_def)
  define q where "q = real (unat w) / DECAY"
  have qu: "q = of_int n * (16777216 / 15602811)"
    unfolding q_def real_unat_uint [OF n_def] DECAY_value by simp
  have q0: "0 < q" using w by (simp add: qu)
  have qge: "of_int n \<le> q" using w by (simp add: qu)
  have "q \<le> 900 * (16777216 / 15602811)" using w by (simp add: qu)
  then have qle: "q \<le> of_int 968" by simp
  then have q24: "q < 2 ^ 24" by simp
  have lo: "of_int n \<le> f32 q" using q0 qge q24 by (rule f32_ge_int)
  have hi: "f32 q \<le> of_int 968" using q0 qle by (rule f32_le_int) simp
  define k where "k = int_of_float (f32 q)"
  have "0 \<le> f32 q" using lo w by linarith
  then have kf: "k = \<lfloor>f32 q\<rfloor>" by (simp add: k_def int_of_float_def)
  have k: "250 \<le> k" "k \<le> 968"
  proof -
    have "n \<le> \<lfloor>f32 q\<rfloor>" using lo by (simp only: le_floor_iff)
    with w show "250 \<le> k" unfolding kf by linarith
    have "\<lfloor>f32 q\<rfloor> \<le> \<lfloor>of_int 968 :: real\<rfloor>" using hi by (rule floor_mono)
    then have "\<lfloor>f32 q\<rfloor> \<le> 968" by simp
    then show "k \<le> 968" unfolding kf .
  qed
  then have "uint (uint16_of_float (f32 q)) = k"
    by (simp add: uint16_of_float_def k_def [symmetric] uint16_small)
  then have "windowMiss w = word_of_int (min 900 k)"
    unfolding windowMiss_def q_def [symmetric] START_WINDOW_MS_def by simp
  moreover have "uint (word_of_int (min 900 k) :: uint16_t) = min 900 k"
    using k by (intro uint16_small) simp_all
  ultimately show ?thesis using k by (simp add: inWindow_iff)
qed

lemma windowTrace_inWindow:
  "inWindow w \<Longrightarrow> list_all inWindow (windowTrace w hits)"
proof (induction hits arbitrary: w)
  case Nil
  then show ?case by simp
next
  case (Cons h hs)
  have "inWindow (windowUpdate h w)"
    using Cons.prems by (simp add: windowUpdate_def windowHit_inWindow windowMiss_inWindow)
  then show ?case using Cons.IH by (simp add: Let_def)
qed

lemma hit_steps:
  "windowHit 900 = 837" "windowHit 837 = 778" "windowHit 778 = 723" "windowHit 723 = 672"
  "windowHit 672 = 624" "windowHit 624 = 580" "windowHit 580 = 539" "windowHit 539 = 501"
  "windowHit 501 = 465" "windowHit 465 = 432"
  unfolding windowHit_def DECAY_value uint16_of_float_def int_of_float_def MIN_WINDOW_MS_def
       f32_def bexp_def rhe_def pow2_def Let_def
  by (simp_all add: compute_floorlog)

lemma ten_hits:
  "roundWindows (replicate 10 True) = [837, 778, 723, 672, 624, 580, 539, 501, 465, 432]"
  by (simp add: roundWindows_def START_WINDOW_MS_def windowUpdate_def numeral_eq_Suc hit_steps)

lemma miss_steps: "windowMiss 900 = 900" "windowMiss 250 = 268" "windowMiss 837 = 900"
  unfolding windowMiss_def DECAY_value uint16_of_float_def int_of_float_def START_WINDOW_MS_def
       f32_def bexp_def rhe_def pow2_def Let_def
  by (simp_all add: compute_floorlog)

text \<open>
  Claim C3. The reaction window of Whack-a-Mole starts at \<open>START_WINDOW_MS\<close> and stays
  within \<open>[MIN_WINDOW_MS, START_WINDOW_MS]\<close> after every update, for every sequence of
  hits and misses; so does a window that starts anywhere in that range, and each of the
  two updates keeps it there.
\<close>

theorem whack_window_in_range:
  "list_all inWindow (roundWindows hits) \<and>
   (inWindow w \<longrightarrow> list_all inWindow (windowTrace w hits)) \<and>
   (inWindow w \<longrightarrow> inWindow (windowHit w) \<and> inWindow (windowMiss w))"
proof -
  have "inWindow START_WINDOW_MS"
    by (simp add: inWindow_def MIN_WINDOW_MS_def START_WINDOW_MS_def)
  then have "list_all inWindow (roundWindows hits)"
    unfolding roundWindows_def by (rule windowTrace_inWindow)
  then show ?thesis
    using windowTrace_inWindow [of w hits] windowHit_inWindow [of w] windowMiss_inWindow [of w]
    by blast
qed

theorem whack_window_in_range_witness:
  "inWindow 250 \<and> windowTrace 250 [False, True] = [268, 250] \<and>
   list_all inWindow (windowTrace 250 [False, True]) \<and>
   inWindow (windowHit 250) \<and> inWindow (windowMiss 250) \<and>
   list_all inWindow (roundWindows (replicate 10 True)) \<and>
   list_all inWindow (roundWindows (replicate 10 False))"
proof -
  have a: "inWindow 250"
    by (simp add: inWindow_def MIN_WINDOW_MS_def START_WINDOW_MS_def)
  have "windowHit 268 = 250"
    unfolding windowHit_def DECAY_value uint16_of_float_def int_of_float_def MIN_WINDOW_MS_def
       f32_def bexp_def rhe_def pow2_def Let_def
    by (simp add: compute_floorlog)
  then have b: "windowTrace 250 [False, True] = [268, 250]"
    by (simp add: windowUpdate_def miss_steps)
  from whack_window_in_range [of "[False, True]" 250] a
  have c: "list_all inWindow (windowTrace 250 [False, True])"
    and d: "inWindow (windowHit 250) \<and> inWindow (windowMiss 250)" by blast+
  from whack_window_in_range [of "replicate 10 True" 250]
  have e: "list_all inWindow (roundWindows (replicate 10 True))" by blast
  from whack_window_in_range [of "replicate 10 False" 250]
  have f: "list_all inWindow (roundWindows (replicate 10 False))" by blast
  from a b c d e f show ?thesis by blast
qed

section \<open>Whack-a-Mole: ten hits in a row\<close>

lemma formula_value:
  "(435 :: real) < max 250 (900 * 0.93 ^ 10)" "max 250 (900 * 0.93 ^ 10) < (436 :: real)"
  by (simp_all add: power_divide)

text \<open>
  Claim C7, as amended. From a window of 900 ms, ten hits in a row leave a window of
  432 ms: the product with \<open>0.93f\<close> is cut to a whole number of milliseconds after
  every hit. That is 3 ms to 4 ms below \<open>max(250, 900 * 0.93^10)\<close>, which lies between
  435 and 436.
\<close>

theorem whack_ten_hits:
  "roundWindows (replicate 10 True) = [837, 778, 723, 672, 624, 580, 539, 501, 465, 432] \<and>
   unat (last (roundWindows (replicate 10 True))) = 432 \<and>
   real (unat (last (roundWindows (replicate 10 True)))) < max 250 (900 * 0.93 ^ 10) - 3 \<and>
   max 250 (900 * 0.93 ^ 10) - 4 < real (unat (last (roundWindows (replicate 10 True))))"
proof -
  define F :: real where "F = max 250 (900 * 0.93 ^ 10)"
  have l: "unat (last (roundWindows (replicate 10 True))) = 432"
    by (simp add: ten_hits)
  have "435 < F" "F < 436" unfolding F_def by (rule formula_value)+
  then have "real 432 < F - 3 \<and> F - 4 < real 432"
    by simp
  then show ?thesis unfolding l F_def using ten_hits by simp
qed

text \<open>
  The window after ten hits is neither the value of the formula of the claim nor the
  434 ms the claim gives for it.
\<close>

theorem whack_ten_hits_counterexample:
  "real (unat (last (roundWindows (replicate 10 True)))) \<noteq> max 250 (900 * 0.93 ^ 10) \<and>
   unat (last (roundWindows (replicate 10 True))) \<noteq> 434 \<and>
   \<bar>max 250 (900 * 0.93 ^ 10) - 434\<bar> > (1 :: real)"
proof -
  define F :: real where "F = max 250 (900 * 0.93 ^ 10)"
  have l: "unat (last (roundWindows (replicate 10 True))) = 432"
    by (simp add: ten_hits)
  have "435 < F" unfolding F_def by (rule formula_value)
  then have "real 432 \<noteq> F \<and> (432 :: nat) \<noteq> 434 \<and> \<bar>F - 434\<bar> > 1"
    by simp
  then show ?thesis unfolding l F_def .
qed

section \<open>Simon: press and release of a pad\<close>

lemma upt4: "[0..<4] = [0, 1, 2, 3]"
  by (simp add: upt_rec)

lemma upt16: "[0..<16] = [0, 1, 2, 3, 4, 5, 6, 7, 8, 9, 10, 11, 12, 13, 14, 15]"
  by (simp add: upt_rec)

lemma less4: "j < 4 \<longleftrightarrow> j = 0 \<or> j = Suc 0 \<or> j = 2 \<or> (j::nat) = 3"
  by auto

lemma press_threshold_word:
  fixes a :: uint16_t
  assumes "uint a + 120 < 65536"
  shows "uint (a + 120) = uint a + 120"
proof -
  have "uint a + uint (120 :: uint16_t) < 2 ^ LENGTH(16)" using assms by simp
  then have "uint (a + 120) = uint a + uint (120 :: uint16_t)"
    by (simp only: uint_add_lem)
  then show ?thesis by simp
qed

lemma release_threshold_word:
  fixes a :: uint16_t
  assumes "uint a + 120 < 65536"
  shows "uint (a + 120 - 60) = uint a + 60"
proof -
  have eq: "a + 120 - 60 = a + 60" by simp
  have "uint a + uint (60 :: uint16_t) < 2 ^ LENGTH(16)" using assms by simp
  then have "uint (a + 60) = uint a + uint (60 :: uint16_t)"
    by (simp only: uint_add_lem)
  then show ?thesis unfolding eq by simp
qed

lemma simonPadPressed_iff:
  assumes "pressThreshold capBase i < 65536"
  shows "simonPadPressed bd capBase i now \<longleftrightarrow> pressThreshold capBase i < uint (padReading bd i now)"
  using assms
  by (simp add: simonPadPressed_def pressThreshold_def padReading_def CAP_DELTA_MIN_def Let_def
      word_less_def press_threshold_word)

lemma anyHigh_iff:
  assumes "\<forall>j<4. pressThreshold capBase j < 65536"
  shows "anyHigh bd capBase now \<longleftrightarrow> (\<exists>j<4. releaseThreshold capBase j < uint (padReading bd j now))"
proof -
  have r: "uint (capBase ! j + CAP_DELTA_MIN - CAP_RELEASE_HYST) = releaseThreshold capBase j"
    if "j < 4" for j
  proof -
    from assms that have "uint (capBase ! j) + 120 < 65536"
      by (simp add: pressThreshold_def CAP_DELTA_MIN_def)
    then have "uint (capBase ! j + 120 - 60) = uint (capBase ! j) + 60"
      by (rule release_threshold_word)
    then show ?thesis
      unfolding releaseThreshold_def CAP_DELTA_MIN_def CAP_RELEASE_HYST_def by simp
  qed
  have "anyHigh bd capBase now \<longleftrightarrow>
        (\<exists>j\<in>set [0..<4]. uint (capBase ! j + CAP_DELTA_MIN - CAP_RELEASE_HYST) < uint (padReading bd j now))"
    by (simp only: anyHigh_def list_ex_iff word_less_def padReading_def)
  also have "\<dots> \<longleftrightarrow> (\<exists>j<4. releaseThreshold capBase j < uint (padReading bd j now))"
    using r by auto
  finally show ?thesis .
qed

lemma waitAllReleased_high:
  "anyHigh bd capBase now \<Longrightarrow> waitAllReleased bd capBase now = waitAllReleased bd capBase (now + 5)"
  by (subst waitAllReleased.simps) simp

lemma waitAllReleased_low:
  "\<not> anyHigh bd capBase now \<Longrightarrow> waitAllReleased bd capBase now = Some now"
  by (subst waitAllReleased.simps) simp

text \<open>
  Claim C1, as amended. The sketch keeps no pressed flag. \<open>simonPadPressed\<close> compares
  the reading of the moment with the press threshold \<open>capBase + CAP_DELTA_MIN\<close> and
  nothing else. The hysteresis is in the release wait of \<open>simonWaitPadEdge\<close>: a pad
  whose reading lies above the release threshold \<open>capBase + CAP_DELTA_MIN -
  CAP_RELEASE_HYST\<close>, up to the press threshold, does not read as pressed, but the wait
  for the next edge goes on for another 5 ms; the wait ends at the first scan in which
  every pad reads at or below its release threshold. (The thresholds are taken not to
  wrap around 16 bits.)
\<close>

theorem simon_release_hysteresis:
  assumes "\<forall>j<4. pressThreshold capBase j < 65536" and "i < 4"
  shows
   "(simonPadPressed bd capBase i now \<longleftrightarrow> pressThreshold capBase i < uint (padReading bd i now)) \<and>
    (releaseThreshold capBase i < uint (padReading bd i now) \<and>
       uint (padReading bd i now) \<le> pressThreshold capBase i
     \<longrightarrow> \<not> simonPadPressed bd capBase i now \<and>
         waitAllReleased bd capBase now = waitAllReleased bd capBase (now + 5)) \<and>
    (releaseThreshold capBase i < uint (padReading bd i now)
     \<longrightarrow> waitAllReleased bd capBase now = waitAllReleased bd capBase (now + 5)) \<and>
    ((\<forall>j<4. uint (padReading bd j now) \<le> releaseThreshold capBase j)
     \<longrightarrow> waitAllReleased bd capBase now = Some now)"
proof -
  from assms have p: "pressThreshold capBase i < 65536" by simp
  have 1: "simonPadPressed bd capBase i now \<longleftrightarrow> pressThreshold capBase i < uint (padReading bd i now)"
    using p by (rule simonPadPressed_iff)
  have 2: "waitAllReleased bd capBase now = waitAllReleased bd capBase (now + 5)"
    if "releaseThreshold capBase i < uint (padReading bd i now)"
  proof -
    have "anyHigh bd capBase now"
      using that assms(2) anyHigh_iff [OF assms(1)] by blast
    then show ?thesis by (rule waitAllReleased_high)
  qed
  have 3: "waitAllReleased bd capBase now = Some now"
    if "\<forall>j<4. uint (padReading bd j now) \<le> releaseThreshold capBase j"
  proof -
    have "\<not> (\<exists>j<4. releaseThreshold capBase j < uint (padReading bd j now))"
      using that by (auto simp: not_less)
    then have "\<not> anyHigh bd capBase now"
      using anyHigh_iff [OF assms(1)] by blast
    then show ?thesis by (rule waitAllReleased_low)
  qed
  from 1 2 3 show ?thesis by (simp add: not_less)
qed

lemma demo_readings:
  "padReading demoBoard 0 0 = 650" "padReading demoBoard 0 5 = 580" "padReading demoBoard 0 10 = 540"
  "padReading demoBoard (Suc 0) t = 500" "padReading demoBoard 2 t = 500"
  "padReading demoBoard 3 t = 500"
  by (simp_all add: padReading_def demoBoard_def PADS_def)

lemma demo_thresholds:
  "j < 4 \<Longrightarrow> pressThreshold [500, 500, 500, 500] j = 620"
  "j < 4 \<Longrightarrow> releaseThreshold [500, 500, 500, 500] j = 560"
  by (auto simp: less4 pressThreshold_def releaseThreshold_def CAP_DELTA_MIN_def CAP_RELEASE_HYST_def)

text \<open>
  The rest of the model on the scenarios: calibration while no pad is touched gives the
  baseline 500 on each pad; a candidate press that falls back below the press threshold
  during its confirmation is not returned; a touch that lasts is returned after the
  40 ms of confirmation.
\<close>

lemma calibrate_idle:
  "simonCalibrateCaps demoBoard 100 = ([500, 500, 500, 500], 228)"
  by (simp add: simonCalibrateCaps_def calibratePad_def CAP_SAMPLES_def upt4 upt16 demoBoard_def
      PADS_def)

lemma noise_rejected: "scanPads noiseBoard [500, 500, 500, 500] [0..<4] 0 = (None, 5)"
  by (simp add: upt4 simonPadPressed_def noiseBoard_def PADS_def CAP_DELTA_MIN_def Let_def
      confirmHold.simps millis_def)

lemma touch_scan20: "scanPads touchBoard [500, 500, 500, 500] [0..<4] 20 = (Some 0, 60)"
  by (simp add: upt4 simonPadPressed_def touchBoard_def PADS_def CAP_DELTA_MIN_def Let_def
      confirmHold.simps millis_def)

lemma touch_scan_idle:
  "t < 20 \<Longrightarrow> scanPads touchBoard [500, 500, 500, 500] [0..<4] t = (None, t)"
  by (simp add: upt4 simonPadPressed_def touchBoard_def PADS_def CAP_DELTA_MIN_def Let_def)

lemma waitPress_found:
  "scanPads bd capBase [0..<4] now = (Some i, t) \<Longrightarrow> waitPress bd capBase now = Some (word_of_nat i, t)"
  by (subst waitPress.simps) simp

lemma waitPress_retry:
  "scanPads bd capBase [0..<4] now = (None, t) \<Longrightarrow> waitPress bd capBase now = waitPress bd capBase (t + 5)"
  by (subst waitPress.simps) simp

lemma touch_edge: "simonWaitPadEdge touchBoard [500, 500, 500, 500] 0 = Some (0, 60)"
proof -
  have "\<not> anyHigh touchBoard [500, 500, 500, 500] 0"
    by (simp add: anyHigh_def upt4 touchBoard_def PADS_def CAP_DELTA_MIN_def CAP_RELEASE_HYST_def)
  then have r: "waitAllReleased touchBoard [500, 500, 500, 500] 0 = Some 0"
    by (rule waitAllReleased_low)
  have "waitPress touchBoard [500, 500, 500, 500] 0 = waitPress touchBoard [500, 500, 500, 500] 5"
    using waitPress_retry [OF touch_scan_idle [of 0]] by simp
  also have "\<dots> = waitPress touchBoard [500, 500, 500, 500] 10"
    using waitPress_retry [OF touch_scan_idle [of 5]] by simp
  also have "\<dots> = waitPress touchBoard [500, 500, 500, 500] 15"
    using waitPress_retry [OF touch_scan_idle [of 10]] by simp
  also have "\<dots> = waitPress touchBoard [500, 500, 500, 500] 20"
    using waitPress_retry [OF touch_scan_idle [of 15]] by simp
  also have "\<dots> = Some (0, 60)"
    using waitPress_found [OF touch_scan20] by simp
  finally show ?thesis by (simp add: simonWaitPadEdge_def r)
qed

theorem simon_release_hysteresis_witness:
  "pressThreshold [500, 500, 500, 500] 0 = 620 \<and> releaseThreshold [500, 500, 500, 500] 0 = 560 \<and>
   simonPadPressed demoBoard [500, 500, 500, 500] 0 0 \<and>
   \<not> simonPadPressed demoBoard [500, 500, 500, 500] 0 5 \<and>
   \<not> simonPadPressed demoBoard [500, 500, 500, 500] 0 10 \<and>
   waitAllReleased demoBoard [500, 500, 500, 500] 0 = Some 10 \<and>
   simonCalibrateCaps demoBoard 100 = ([500, 500, 500, 500], 228) \<and>
   scanPads noiseBoard [500, 500, 500, 500] [0..<4] 0 = (None, 5) \<and>
   simonWaitPadEdge touchBoard [500, 500, 500, 500] 0 = Some (0, 60)"
proof -
  have pre: "\<forall>j<4. pressThreshold [500, 500, 500, 500] j < 65536"
    by (simp add: demo_thresholds)
  have i: "(0 :: nat) < 4" by simp
  note th = simon_release_hysteresis [OF pre i, of demoBoard]
  have low: "\<forall>j<4. uint (padReading demoBoard j 10) \<le> releaseThreshold [500, 500, 500, 500] j"
    by (simp add: less4 demo_thresholds demo_readings)
  from th [of 0] have a: "simonPadPressed demoBoard [500, 500, 500, 500] 0 0"
    "waitAllReleased demoBoard [500, 500, 500, 500] 0 = waitAllReleased demoBoard [500, 500, 500, 500] 5"
    by (simp_all add: demo_thresholds demo_readings)
  from th [of 5] have b: "\<not> simonPadPressed demoBoard [500, 500, 500, 500] 0 5"
    "waitAllReleased demoBoard [500, 500, 500, 500] 5 = waitAllReleased demoBoard [500, 500, 500, 500] 10"
    by (simp_all add: demo_thresholds demo_readings)
  from th [of 10] low have c: "\<not> simonPadPressed demoBoard [500, 500, 500, 500] 0 10"
    "waitAllReleased demoBoard [500, 500, 500, 500] 10 = Some 10"
    by (simp_all add: demo_thresholds demo_readings)
  from a b c calibrate_idle noise_rejected touch_edge show ?thesis
    by (simp add: demo_thresholds)
qed

text \<open>
  The claim as stated fails on \<open>simonPadPressed\<close>: with the baseline 500 the reading
  650 is pressed, and the reading 580 that follows it is not, although 580 lies between
  the release threshold 560 and the press threshold 620.
\<close>

theorem simon_pressed_counterexample:
  "padReading demoBoard 0 0 = 650 \<and> padReading demoBoard 0 5 = 580 \<and>
   simonPadPressed demoBoard [500, 500, 500, 500] 0 0 \<and>
   \<not> simonPadPressed demoBoard [500, 500, 500, 500] 0 5"
  by (simp add: simonPadPressed_def padReading_def demoBoard_def PADS_def CAP_DELTA_MIN_def Let_def)

section \<open>Tug-of-War: the track position stays on the track\<close>

lemma sint_dec_small:
  fixes p :: int8_t
  assumes "- 9 \<le> sint p" "sint p \<le> 9"
  shows "sint (p - 1) = sint p - 1"
proof -
  have "sint (p - 1) = signed_take_bit 7 (sint p - 1)"
    by (simp add: sint_word_ariths)
  also have "\<dots> = sint p - 1"
    using assms by (intro signed_take_bit_int_eq_self) simp_all
  finally show ?thesis .
qed

lemma sint_inc_small:
  fixes p :: int8_t
  assumes "- 9 \<le> sint p" "sint p \<le> 9"
  shows "sint (p + 1) = sint p + 1"
proof -
  have "sint (p + 1) = signed_take_bit 7 (sint p + 1)"
    by (simp add: sint_word_ariths)
  also have "\<dots> = sint p + 1"
    using assms by (intro signed_take_bit_int_eq_self) simp_all
  finally show ?thesis .
qed

lemma onTrack_iff: "onTrack p \<longleftrightarrow> - 9 \<le> sint p \<and> sint p \<le> 9"
  by (simp add: onTrack_def TUG_TRACK_LEN_def)

lemma pullLeft_onTrack: "onTrack p \<Longrightarrow> onTrack (pullLeft p)"
  by (simp add: onTrack_iff pullLeft_def TUG_TRACK_LEN_def Let_def sint_dec_small)

lemma pullRight_onTrack: "onTrack p \<Longrightarrow> onTrack (pullRight p)"
  by (simp add: onTrack_iff pullRight_def TUG_TRACK_LEN_def Let_def sint_inc_small)

lemma pullLeft_clamps: "sint p = - 9 \<Longrightarrow> sint (pullLeft p) = - 9"
  by (simp add: pullLeft_def TUG_TRACK_LEN_def Let_def sint_dec_small)

lemma pullRight_clamps: "sint p = 9 \<Longrightarrow> sint (pullRight p) = 9"
  by (simp add: pullRight_def TUG_TRACK_LEN_def Let_def sint_inc_small)

lemma tugSoloStep_onTrack:
  assumes "onTrack (s_pos s)" "tugSoloStep tEnd s ob = (s', e)"
  shows "onTrack (s_pos s')"
proof (cases "so_reset ob")
  case True
  with assms show ?thesis by (simp add: tugSoloStep_def)
next
  case False
  define p1 where "p1 = (if so_left ob then pullLeft (s_pos s) else s_pos s)"
  have p1: "onTrack p1"
    using assms(1) by (simp add: p1_def pullLeft_onTrack)
  have "s_pos s' = p1 \<or> s_pos s' = pullRight p1"
    using assms(2) False
    by (auto simp: tugSoloStep_def Let_def p1_def split: if_splits)
  with p1 show ?thesis
    by (auto simp: pullRight_onTrack)
qed

lemma runTugSolo_trace_onTrack:
  "onTrack (s_pos s) \<Longrightarrow> \<forall>p \<in> set (runTugSolo_trace tEnd s obs). onTrack p"
proof (induction obs arbitrary: s)
  case Nil
  then show ?case by simp
next
  case (Cons ob obs)
  obtain s' e where st: "tugSoloStep tEnd s ob = (s', e)"
    by (cases "tugSoloStep tEnd s ob")
  with Cons.prems have s': "onTrack (s_pos s')"
    by (rule tugSoloStep_onTrack)
  show ?case
  proof (cases e)
    case None
    with st s' Cons.IH [OF s'] show ?thesis by simp
  next
    case (Some r)
    with st s' show ?thesis by simp
  qed
qed

lemma tugTwoStep_onTrack:
  assumes "onTrack p" "tugTwoStep p ob = (p', e)"
  shows "onTrack p'"
proof (cases "do_reset ob")
  case True
  with assms show ?thesis by (simp add: tugTwoStep_def)
next
  case False
  define p1 where "p1 = (if do_left ob then pullLeft p else p)"
  have p1: "onTrack p1"
    using assms(1) by (simp add: p1_def pullLeft_onTrack)
  have "p' = p1 \<or> p' = pullRight p1"
    using assms(2) False
    by (auto simp: tugTwoStep_def Let_def p1_def split: if_splits)
  with p1 show ?thesis
    by (auto simp: pullRight_onTrack)
qed

lemma runTugTwoPlayer_trace_onTrack:
  "onTrack p \<Longrightarrow> \<forall>q \<in> set (runTugTwoPlayer_trace p obs). onTrack q"
proof (induction obs arbitrary: p)
  case Nil
  then show ?case by simp
next
  case (Cons ob obs)
  obtain p' e where st: "tugTwoStep p ob = (p', e)"
    by (cases "tugTwoStep p ob")
  with Cons.prems have p': "onTrack p'"
    by (rule tugTwoStep_onTrack)
  show ?case
  proof (cases e)
    case None
    with st p' Cons.IH [OF p'] show ?thesis by simp
  next
    case (Some r)
    with st p' show ?thesis by simp
  qed
qed

text \<open>
  Claim C9. In every Tug-of-War round, solo or two-player, the track position stays
  within \<open>[-TUG_TRACK_LEN, +TUG_TRACK_LEN]\<close> after every pass of the loop, whatever the
  buttons, the clock and the random numbers do; a pull at a bound leaves the position at
  that bound.
\<close>

theorem tug_pos_on_track:
  "(\<forall>p \<in> set (runTugSolo t0 sobs). - 9 \<le> sint p \<and> sint p \<le> 9) \<and>
   (\<forall>p \<in> set (runTugTwoPlayer dobs). - 9 \<le> sint p \<and> sint p \<le> 9) \<and>
   (\<forall>p. sint p = - 9 \<longrightarrow> sint (pullLeft p) = - 9) \<and>
   (\<forall>p. sint p = 9 \<longrightarrow> sint (pullRight p) = 9)"
proof -
  have z: "onTrack 0" by (simp add: onTrack_iff)
  have "\<forall>p \<in> set (runTugSolo t0 sobs). onTrack p"
    unfolding runTugSolo_def by (rule runTugSolo_trace_onTrack) (simp add: z)
  moreover have "\<forall>p \<in> set (runTugTwoPlayer dobs). onTrack p"
    unfolding runTugTwoPlayer_def by (rule runTugTwoPlayer_trace_onTrack) (rule z)
  ultimately show ?thesis
    by (simp add: onTrack_iff pullLeft_clamps pullRight_clamps)
qed

theorem tug_pos_on_track_witness:
  "runTugSolo 0
     [\<lparr>so_reset = False, so_now = 5, so_left = True, so_random = 80\<rparr>,
      \<lparr>so_reset = False, so_now = 300, so_left = False, so_random = 10\<rparr>,
      \<lparr>so_reset = False, so_now = 310, so_left = True, so_random = 70\<rparr>] = [- 1, 0, - 1] \<and>
   runTugTwoPlayer (replicate 12 \<lparr>do_reset = False, do_left = False, do_right = True\<rparr>)
     = [1, 2, 3, 4, 5, 6, 7, 8, 9] \<and>
   list_all (\<lambda>p. - 9 \<le> sint p \<and> sint p \<le> 9)
     (runTugSolo 0
       [\<lparr>so_reset = False, so_now = 5, so_left = True, so_random = 80\<rparr>,
        \<lparr>so_reset = False, so_now = 300, so_left = False, so_random = 10\<rparr>,
        \<lparr>so_reset = False, so_now = 310, so_left = True, so_random = 70\<rparr>]) \<and>
   list_all (\<lambda>p. - 9 \<le> sint p \<and> sint p \<le> 9)
     (runTugTwoPlayer (replicate 12 \<lparr>do_reset = False, do_left = False, do_right = True\<rparr>)) \<and>
   sint (- 9 :: int8_t) = - 9 \<and> sint (pullLeft (- 9)) = - 9 \<and>
   sint (9 :: int8_t) = 9 \<and> sint (pullRight 9) = 9"
proof -
  note th = tug_pos_on_track [of 0
     "[\<lparr>so_reset = False, so_now = 5, so_left = True, so_random = 80\<rparr>,
       \<lparr>so_reset = False, so_now = 300, so_left = False, so_random = 10\<rparr>,
       \<lparr>so_reset = False, so_now = 310, so_left = True, so_random = 70\<rparr>]"
     "replicate 12 \<lparr>do_reset = False, do_left = False, do_right = True\<rparr>"]
  have solo: "runTugSolo 0
     [\<lparr>so_reset = False, so_now = 5, so_left = True, so_random = 80\<rparr>,
      \<lparr>so_reset = False, so_now = 300, so_left = False, so_random = 10\<rparr>,
      \<lparr>so_reset = False, so_now = 310, so_left = True, so_random = 70\<rparr>] = [- 1, 0, - 1]"
    by (simp add: runTugSolo_def tugSoloStep_def pullRight_def pullLeft_def TUG_TRACK_LEN_def
        Let_def CPU_PULSE_MS_def CPU_PUSH_CHANCE_def SOLO_ROUND_MS_def)
  have duo: "runTugTwoPlayer (replicate 12 \<lparr>do_reset = False, do_left = False, do_right = True\<rparr>)
     = [1, 2, 3, 4, 5, 6, 7, 8, 9]"
    by (simp add: runTugTwoPlayer_def tugTwoStep_def pullRight_def TUG_TRACK_LEN_def Let_def
        numeral_eq_Suc)
  have m9: "sint (- 9 :: int8_t) = - 9" and p9: "sint (9 :: int8_t) = 9"
    by simp_all
  from th m9 have l: "sint (pullLeft (- 9)) = - 9" by blast
  from th p9 have r: "sint (pullRight 9) = 9" by blast
  from th have "list_all (\<lambda>p. - 9 \<le> sint p \<and> sint p \<le> 9)
     (runTugSolo 0
       [\<lparr>so_reset = False, so_now = 5, so_left = True, so_random = 80\<rparr>,
        \<lparr>so_reset = False, so_now = 300, so_left = False, so_random = 10\<rparr>,
        \<lparr>so_reset = False, so_now = 310, so_left = True, so_random = 70\<rparr>])"
    and "list_all (\<lambda>p. - 9 \<le> sint p \<and> sint p \<le> 9)
     (runTugTwoPlayer (replicate 12 \<lparr>do_reset = False, do_left = False, do_right = True\<rparr>))"
    unfolding list_all_iff by blast+
  with solo duo m9 p9 l r show ?thesis by blast
qed
end
